theory Spec2Isabelle
  imports Main "HOL-Library.Multiset" "HOL-Library.Sublist"
begin

section \<open>Card engine (bot.py, BLACKJACK GAME)\<close>

text \<open>
  \<^verbatim>\<open>Card.SUITS\<close> and \<^verbatim>\<open>Card.RANKS\<close> are two lists of string literals; a card is only ever
  built from them (in \<^verbatim>\<open>Deck.__init__\<close>), so suits and ranks are enumerations here, in the
  order of the two lists.
\<close>

datatype suit = Spades | Hearts | Diamonds | Clubs

datatype rank =
  Two | Three | Four | Five | Six | Seven | Eight | Nine | Ten | Jack | Queen | King | Ace

record card =
  suit :: suit
  rank :: rank

definition SUITS :: "suit list" where
  "SUITS = [Spades, Hearts, Diamonds, Clubs]"

definition RANKS :: "rank list" where
  "RANKS = [Two, Three, Four, Five, Six, Seven, Eight, Nine, Ten, Jack, Queen, King, Ace]"

text \<open>
  \<^verbatim>\<open>int(self.rank)\<close> on the number ranks \<^verbatim>\<open>'2'\<close> .. \<^verbatim>\<open>'10'\<close>. \<^verbatim>\<open>Card.value\<close> calls it on no
  other rank (the last equation is never reached from there).
\<close>

fun int_of_rank :: "rank \<Rightarrow> int" where
  "int_of_rank Two = 2"
| "int_of_rank Three = 3"
| "int_of_rank Four = 4"
| "int_of_rank Five = 5"
| "int_of_rank Six = 6"
| "int_of_rank Seven = 7"
| "int_of_rank Eight = 8"
| "int_of_rank Nine = 9"
| "int_of_rank r = 10"

text \<open>\<^verbatim>\<open>Card.value\<close>: J, Q, K are 10, the ace is 11, every other rank is its number.\<close>

definition card_value :: "card \<Rightarrow> int" where
  "card_value c =
     (if rank c \<in> {Jack, Queen, King} then 10
      else if rank c = Ace then 11
      else int_of_rank (rank c))"

text \<open>
  \<^verbatim>\<open>calculate_hand_value\<close>, first loop: \<^verbatim>\<open>for card in cards\<close>, with the running
  \<^verbatim>\<open>total\<close> and \<^verbatim>\<open>aces\<close>.
\<close>

fun count_cards :: "card list \<Rightarrow> int \<Rightarrow> int \<Rightarrow> int \<times> int" where
  "count_cards [] tot aces = (tot, aces)"
| "count_cards (c # cs) tot aces =
     (if rank c = Ace then count_cards cs (tot + 11) (aces + 1)
      else count_cards cs (tot + card_value c) aces)"

text \<open>Second loop: \<^verbatim>\<open>while total > 21 and aces > 0: total -= 10; aces -= 1\<close>.\<close>

function adjust_aces :: "int \<Rightarrow> int \<Rightarrow> int \<times> int" where
  "adjust_aces tot aces =
     (if tot > 21 \<and> aces > 0 then adjust_aces (tot - 10) (aces - 1) else (tot, aces))"
  by pat_completeness auto
termination
  by (relation "measure (\<lambda>(tot, aces). nat aces)") auto

declare adjust_aces.simps [simp del]

definition calculate_hand_value :: "card list \<Rightarrow> int \<times> bool" where
  "calculate_hand_value cards =
     (let (tot, aces) = count_cards cards 0 0;
          (tot, aces) = adjust_aces tot aces;
          is_soft = (aces > 0 \<and> tot + 10 \<le> 21)
      in (tot, is_soft))"

text \<open>
  The number of aces that are still counted as 11 when the adjustment loop of
  \<^verbatim>\<open>calculate_hand_value\<close> has ended (the loop variable \<^verbatim>\<open>aces\<close> at that point).
\<close>

definition aces_as_eleven :: "card list \<Rightarrow> int" where
  "aces_as_eleven cards = (let (tot, aces) = count_cards cards 0 0 in snd (adjust_aces tot aces))"


subsection \<open>Deck and dealer\<close>

text \<open>
  \<^verbatim>\<open>random.shuffle\<close> is the only source of randomness of the card engine. It is a
  parameter of the model: \<open>shuffle n xs\<close> is what the \<open>n\<close>-th call of
  \<^verbatim>\<open>random.shuffle\<close> leaves in the list \<open>xs\<close>. A deck carries, beside its cards, the
  number of calls made so far.
\<close>

type_synonym 'a shuffler = "nat \<Rightarrow> 'a list \<Rightarrow> 'a list"

datatype py_error = IndexError | KeyError

record deck =
  cards :: "card list"
  shuffles :: nat

definition full_deck :: "nat \<Rightarrow> card list" where
  "full_deck num_decks =
     concat (replicate num_decks
       (concat (map (\<lambda>s. map (\<lambda>r. \<lparr>suit = s, rank = r\<rparr>) RANKS) SUITS)))"

text \<open>\<^verbatim>\<open>Deck.__init__\<close>, on a deck that has made \<open>n\<close> calls of the random source.\<close>

definition Deck_init :: "card shuffler \<Rightarrow> nat \<Rightarrow> nat \<Rightarrow> deck" where
  "Deck_init shuffle n num_decks = \<lparr>cards = shuffle n (full_deck num_decks), shuffles = Suc n\<rparr>"

text \<open>
  \<^verbatim>\<open>Deck.draw\<close>: a deck of fewer than 10 cards is rebuilt as one fresh deck
  (\<^verbatim>\<open>self.__init__()\<close>, with the default \<^verbatim>\<open>num_decks=1\<close>); \<^verbatim>\<open>self.cards.pop()\<close> takes the
  last card and raises IndexError on an empty list.
\<close>

definition draw :: "card shuffler \<Rightarrow> deck \<Rightarrow> py_error + (card \<times> deck)" where
  "draw shuffle d =
     (let d' = (if length (cards d) < 10 then Deck_init shuffle (shuffles d) 1 else d)
      in if cards d' = [] then Inl IndexError
         else Inr (last (cards d'), d'\<lparr>cards := butlast (cards d')\<rparr>))"

text \<open>
  The result texts of a game, without their wording: the values they show are kept.
\<close>

datatype outcome =
  PlayerBust
  | DealerBust int
  | PlayerWins int int
  | PlayerLoses int int
  | Push int int
  | PlayerBlackjack
  | DealerBlackjack

record blackjack_game =
  player_id :: int
  deck :: deck
  player_hand :: "card list"
  dealer_hand :: "card list"
  game_over :: bool
  result :: "outcome option"

text \<open>
  The value of a hand with every ace counted as 1. No source function computes it; it
  bounds the hand value from below and is the measure of the dealer's loop.
\<close>

definition hard_total :: "card list \<Rightarrow> int" where
  "hard_total cs = (\<Sum>c\<leftarrow>cs. if rank c = Ace then 1 else card_value c)"

lemma card_value_pos: "rank c \<noteq> Ace \<Longrightarrow> 2 \<le> card_value c"
  by (cases "rank c") (simp_all add: card_value_def)

lemma count_cards_hard:
  "\<exists>k\<ge>0. k \<le> hard_total cs \<and> count_cards cs tot aces = (tot + hard_total cs + 10 * k, aces + k)"
proof (induction cs arbitrary: tot aces)
  case Nil
  show ?case by (simp add: hard_total_def)
next
  case (Cons c cs)
  show ?case
  proof (cases "rank c = Ace")
    case True
    from Cons.IH [of "tot + 11" "aces + 1"] obtain k where
      k: "0 \<le> k" "k \<le> hard_total cs"
         "count_cards cs (tot + 11) (aces + 1) = (tot + 11 + hard_total cs + 10 * k, aces + 1 + k)"
      by blast
    have "count_cards (c # cs) tot aces = (tot + hard_total (c # cs) + 10 * (k + 1), aces + (k + 1))"
      using True k by (simp add: hard_total_def)
    moreover have "0 \<le> k + 1" "k + 1 \<le> hard_total (c # cs)"
      using k True by (simp_all add: hard_total_def)
    ultimately show ?thesis by blast
  next
    case False
    from Cons.IH [of "tot + card_value c" aces] obtain k where
      k: "0 \<le> k" "k \<le> hard_total cs"
         "count_cards cs (tot + card_value c) aces = (tot + card_value c + hard_total cs + 10 * k, aces + k)"
      by blast
    have "count_cards (c # cs) tot aces = (tot + hard_total (c # cs) + 10 * k, aces + k)"
      using False k by (simp add: hard_total_def)
    moreover have "k \<le> hard_total (c # cs)"
      using k False card_value_pos [of c] by (simp add: hard_total_def)
    ultimately show ?thesis using k by blast
  qed
qed

lemma adjust_aces_lower: "0 \<le> aces \<Longrightarrow> tot - 10 * aces \<le> fst (adjust_aces tot aces)"
proof (induction tot aces rule: adjust_aces.induct)
  case (1 tot aces)
  show ?case
  proof (cases "tot > 21 \<and> aces > 0")
    case True
    then have "tot - 10 - 10 * (aces - 1) \<le> fst (adjust_aces (tot - 10) (aces - 1))"
      using "1.IH" by simp
    moreover have "adjust_aces tot aces = adjust_aces (tot - 10) (aces - 1)"
      using True adjust_aces.simps [of tot aces] by simp
    ultimately show ?thesis by simp
  next
    case False
    then have "adjust_aces tot aces = (tot, aces)"
      using adjust_aces.simps [of tot aces] by auto
    then show ?thesis using "1.prems" by simp
  qed
qed

lemma hard_total_le_value: "hard_total cs \<le> fst (calculate_hand_value cs)"
proof -
  obtain k where k: "0 \<le> k" "count_cards cs 0 0 = (hard_total cs + 10 * k, k)"
    using count_cards_hard [of cs 0 0] by auto
  have "hard_total cs + 10 * k - 10 * k \<le> fst (adjust_aces (hard_total cs + 10 * k) k)"
    using adjust_aces_lower [OF k(1)] .
  then show ?thesis
    using k by (auto simp: calculate_hand_value_def split: prod.splits)
qed

lemma hard_total_snoc: "hard_total cs < hard_total (cs @ [c])"
proof (cases "rank c = Ace")
  case True
  then show ?thesis by (simp add: hard_total_def)
next
  case False
  then show ?thesis using card_value_pos [of c] by (simp add: hard_total_def)
qed

text \<open>
  \<^verbatim>\<open>play_dealer\<close>, the loop: \<^verbatim>\<open>while dealer_value < 17 or (dealer_value == 17 and
  dealer_soft)\<close>, drawing one card into the dealer's hand at each turn. The loop's state is
  the deck and the dealer's hand; an exception of \<^verbatim>\<open>draw\<close> leaves the loop.
\<close>

function dealer_loop :: "card shuffler \<Rightarrow> deck \<Rightarrow> card list \<Rightarrow> py_error + (deck \<times> card list)" where
  "dealer_loop shuffle d hand =
     (if fst (calculate_hand_value hand) < 17
         \<or> (fst (calculate_hand_value hand) = 17 \<and> snd (calculate_hand_value hand))
      then (case draw shuffle d of
              Inl e \<Rightarrow> Inl e
            | Inr (c, d') \<Rightarrow> dealer_loop shuffle d' (hand @ [c]))
      else Inr (d, hand))"
  by pat_completeness auto
termination
proof (relation "measure (\<lambda>(shuffle, d, hand). nat (18 - hard_total hand))")
  show "wf (measure (\<lambda>(shuffle, d, hand). nat (18 - hard_total hand)))"
    by simp
next
  fix shuffle :: "card shuffler" and d :: deck and hand :: "card list" and x c d'
  assume "fst (calculate_hand_value hand) < 17
         \<or> (fst (calculate_hand_value hand) = 17 \<and> snd (calculate_hand_value hand))"
  then have "hard_total hand < 18"
    using hard_total_le_value [of hand] by auto
  then show "((shuffle, d', hand @ [c]), (shuffle, d, hand))
               \<in> measure (\<lambda>(shuffle, d, hand). nat (18 - hard_total hand))"
    using hard_total_snoc [of hand c] by simp
qed

declare dealer_loop.simps [simp del]

text \<open>\<^verbatim>\<open>BlackjackGame.play_dealer\<close>: the loop, then the comparison of the two hands.\<close>

definition play_dealer :: "card shuffler \<Rightarrow> blackjack_game \<Rightarrow> py_error + blackjack_game" where
  "play_dealer shuffle g =
     (case dealer_loop shuffle (deck g) (dealer_hand g) of
        Inl e \<Rightarrow> Inl e
      | Inr (d, hand) \<Rightarrow>
          (let dealer_value = fst (calculate_hand_value hand);
               player_value = fst (calculate_hand_value (player_hand g));
               r = (if dealer_value > 21 then DealerBust player_value
                    else if player_value > dealer_value then PlayerWins player_value dealer_value
                    else if player_value < dealer_value then PlayerLoses player_value dealer_value
                    else Push player_value dealer_value)
           in Inr (g\<lparr>deck := d, dealer_hand := hand, result := Some r\<rparr>)))"


section \<open>Economy ledger (bot.py, \<^verbatim>\<open>game_data\<close>)\<close>

text \<open>
  \<^verbatim>\<open>game_data\<close> is a dictionary with the two entries \<^verbatim>\<open>'points'\<close> and \<^verbatim>\<open>'cooldowns'\<close>, each a
  dictionary keyed by \<^verbatim>\<open>str(user_id)\<close>. The decimal text of an integer determines the
  integer, so the maps are keyed by the user id itself. \<^verbatim>\<open>save_game_data\<close> writes the
  dictionary to a file and swallows every failure; it does not change \<^verbatim>\<open>game_data\<close> and has
  no counterpart here.
\<close>

record game_data =
  points :: "int \<rightharpoonup> int"
  cooldowns :: "int \<rightharpoonup> (string \<rightharpoonup> int)"

text \<open>\<^verbatim>\<open>dict.setdefault(key, default)\<close>, for its effect on the dictionary.\<close>

definition setdefault :: "('k \<rightharpoonup> 'v) \<Rightarrow> 'k \<Rightarrow> 'v \<Rightarrow> ('k \<rightharpoonup> 'v)" where
  "setdefault m k v = (case m k of None \<Rightarrow> m(k \<mapsto> v) | Some _ \<Rightarrow> m)"

text \<open>\<^verbatim>\<open>d[key]\<close>, which raises KeyError on a missing key.\<close>

definition getitem :: "('k \<rightharpoonup> 'v) \<Rightarrow> 'k \<Rightarrow> py_error + 'v" where
  "getitem m k = (case m k of None \<Rightarrow> Inl KeyError | Some v \<Rightarrow> Inr v)"

definition ensure_user_data :: "game_data \<Rightarrow> int \<Rightarrow> game_data" where
  "ensure_user_data g user_id =
     g\<lparr>points := setdefault (points g) user_id 0,
       cooldowns := setdefault (cooldowns g) user_id Map.empty\<rparr>"

definition get_points :: "game_data \<Rightarrow> int \<Rightarrow> py_error + (int \<times> game_data)" where
  "get_points g user_id =
     (let g1 = ensure_user_data g user_id
      in case getitem (points g1) user_id of
           Inl e \<Rightarrow> Inl e
         | Inr v \<Rightarrow> Inr (v, g1))"

definition add_points :: "game_data \<Rightarrow> int \<Rightarrow> int \<Rightarrow> py_error + (int \<times> game_data)" where
  "add_points g user_id amount =
     (let g1 = ensure_user_data g user_id
      in case getitem (points g1) user_id of
           Inl e \<Rightarrow> Inl e
         | Inr old \<Rightarrow>
             (let g2 = g1\<lparr>points := (points g1)(user_id \<mapsto> max 0 (old + amount))\<rparr>
              in case getitem (points g2) user_id of
                   Inl e \<Rightarrow> Inl e
                 | Inr v \<Rightarrow> Inr (v, g2)))"

definition transfer_points ::
  "game_data \<Rightarrow> int \<Rightarrow> int \<Rightarrow> int \<Rightarrow> py_error + (int \<times> game_data)" where
  "transfer_points g from_user_id to_user_id amount0 =
     (let g1 = ensure_user_data g from_user_id;
          g2 = ensure_user_data g1 to_user_id;
          amount = max 0 amount0
      in case getitem (points g2) from_user_id of
           Inl e \<Rightarrow> Inl e
         | Inr from_points \<Rightarrow>
             (let real_amount = min amount from_points;
                  g3 = g2\<lparr>points := (points g2)(from_user_id \<mapsto> from_points - real_amount)\<rparr>
              in case getitem (points g3) to_user_id of
                   Inl e \<Rightarrow> Inl e
                 | Inr to_points \<Rightarrow>
                     Inr (real_amount,
                          g3\<lparr>points := (points g3)(to_user_id \<mapsto> to_points + real_amount)\<rparr>)))"

text \<open>
  What \<^verbatim>\<open>get_points\<close> reports for a user: the stored balance, or 0 for a user the ledger has
  not seen (the account is created lazily).
\<close>

definition balance :: "game_data \<Rightarrow> int \<Rightarrow> int" where
  "balance g user_id = (case points g user_id of None \<Rightarrow> 0 | Some v \<Rightarrow> v)"

text \<open>The data model's invariant: every stored balance is at least 0.\<close>

definition balances_nonneg :: "game_data \<Rightarrow> bool" where
  "balances_nonneg g = (\<forall>u v. points g u = Some v \<longrightarrow> 0 \<le> v)"


section \<open>Puzzle generator and session registry\<close>

subsection \<open>Strings\<close>

text \<open>
  The words of the banks and the answers of the games are ASCII strings. On ASCII strings
  \<^verbatim>\<open>str.lower\<close> maps \<^verbatim>\<open>A\<close>..\<^verbatim>\<open>Z\<close> to \<^verbatim>\<open>a\<close>..\<^verbatim>\<open>z\<close> character by character, \<^verbatim>\<open>str.isalpha\<close>
  holds of the 52 letters, and \<^verbatim>\<open>str.strip\<close> removes the leading and trailing characters
  that \<^verbatim>\<open>str.isspace\<close> accepts (tab, line feed, vertical tab, form feed, carriage return, the
  separators 28 to 31, space).
\<close>

definition lower_char :: "char \<Rightarrow> char" where
  "lower_char c =
     (if 65 \<le> (of_char c :: nat) \<and> (of_char c :: nat) \<le> 90
      then char_of ((of_char c :: nat) + 32) else c)"

definition lower :: "string \<Rightarrow> string" where
  "lower s = map lower_char s"

definition isalpha :: "char \<Rightarrow> bool" where
  "isalpha c =
     ((65 \<le> (of_char c :: nat) \<and> (of_char c :: nat) \<le> 90)
      \<or> (97 \<le> (of_char c :: nat) \<and> (of_char c :: nat) \<le> 122))"

definition isspace :: "char \<Rightarrow> bool" where
  "isspace c =
     ((9 \<le> (of_char c :: nat) \<and> (of_char c :: nat) \<le> 13)
      \<or> (28 \<le> (of_char c :: nat) \<and> (of_char c :: nat) \<le> 32))"

definition strip :: "string \<Rightarrow> string" where
  "strip s = rev (dropWhile isspace (rev (dropWhile isspace s)))"

text \<open>
  A word typed by a player is any Python \<^verbatim>\<open>str\<close>, a sequence of Unicode code points, and on
  it \<^verbatim>\<open>str.lower\<close>, \<^verbatim>\<open>str.isalpha\<close> and \<^verbatim>\<open>str.isspace\<close> follow the Unicode tables of the
  Python library, which are not code of the repository. For such text the type \<open>'c\<close> of a
  code point is left open and the three methods are parameters: \<open>str_lower\<close> maps a text
  to a text (Python's \<^verbatim>\<open>lower\<close> is not character by character, and may change the length),
  \<open>str_isalpha\<close> and \<open>str_isspace\<close> are the tests on one code point. \<^verbatim>\<open>str.strip()\<close> removes
  the leading and the trailing code points that \<^verbatim>\<open>isspace\<close> accepts.
\<close>

record 'c str_methods =
  str_lower :: "'c list \<Rightarrow> 'c list"
  str_isalpha :: "'c \<Rightarrow> bool"
  str_isspace :: "'c \<Rightarrow> bool"

definition str_strip :: "'c str_methods \<Rightarrow> 'c list \<Rightarrow> 'c list" where
  "str_strip py s = rev (dropWhile (str_isspace py) (rev (dropWhile (str_isspace py) s)))"

text \<open>The methods on ASCII text, for the examples (whose texts are ASCII).\<close>

definition ascii_methods :: "char str_methods" where
  "ascii_methods = \<lparr>str_lower = lower, str_isalpha = isalpha, str_isspace = isspace\<rparr>"

subsection \<open>Scramble\<close>

text \<open>
  \<^verbatim>\<open>shuffle_word\<close>, the loop \<^verbatim>\<open>for _ in range(10)\<close>: \<open>n\<close> is the number of rounds left, \<open>k\<close>
  the number of shuffles made so far and \<open>chars\<close> the list that \<^verbatim>\<open>random.shuffle\<close> permutes in
  place. After the last round the function returns \<^verbatim>\<open>''.join(chars)\<close>.
\<close>

fun shuffle_rounds :: "char shuffler \<Rightarrow> string \<Rightarrow> nat \<Rightarrow> nat \<Rightarrow> string \<Rightarrow> string" where
  "shuffle_rounds shuffle word k 0 chars = chars"
| "shuffle_rounds shuffle word k (Suc n) chars =
     (let candidate = shuffle k chars
      in if lower candidate \<noteq> lower word then candidate
         else shuffle_rounds shuffle word (Suc k) n candidate)"

definition shuffle_word :: "char shuffler \<Rightarrow> string \<Rightarrow> string" where
  "shuffle_word shuffle word =
     (if length word < 2 then word else shuffle_rounds shuffle word 0 10 word)"


text \<open>A random source for the examples: every shuffle turns the list by one place.\<close>

definition turning :: "'a shuffler" where
  "turning k xs = rotate1 xs"

text \<open>\<^verbatim>\<open>clean_word\<close>: \<^verbatim>\<open>''.join(ch for ch in word.lower().strip() if ch.isalpha())\<close>.\<close>

definition clean_word :: "'c str_methods \<Rightarrow> 'c list \<Rightarrow> 'c list" where
  "clean_word py word = filter (str_isalpha py) (str_strip py (str_lower py word))"

text \<open>
  The normalisation in the words of the specification, letters-only and lowercase: the
  text in lower case, and of it the letters only.
\<close>

definition letters_lowercase :: "'c str_methods \<Rightarrow> 'c list \<Rightarrow> 'c list" where
  "letters_lowercase py word = filter (str_isalpha py) (str_lower py word)"

subsection \<open>Session registry\<close>

text \<open>
  The four dictionaries \<^verbatim>\<open>tebak_kata_active\<close>, \<^verbatim>\<open>tebak_gambar_active\<close>, \<^verbatim>\<open>trivia_active\<close> and
  \<^verbatim>\<open>sambung_kata_active\<close>, keyed by channel id. A word or image session is the dictionary
  \<^verbatim>\<open>{'answer': .., 'prompt_id': ..}\<close>, a trivia session is an entry of \<^verbatim>\<open>TRIVIA_BANK\<close>
  (its key \<^verbatim>\<open>'answer'\<close> is the field \<open>correct\<close>), a word-chain session is
  \<^verbatim>\<open>{'last': .., 'used': ..}\<close> (the fields \<open>last_word\<close> and \<open>used_words\<close>). The words of a
  word chain come from the players, so they are texts over the open type of code points.
\<close>

record guess_session =
  answer :: string
  prompt_id :: int

record trivia_question =
  question :: string
  options :: "(string \<times> string) list"
  correct :: string

record 'c chain_session =
  last_word :: "'c list"
  used_words :: "'c list set"

record 'c registry =
  tebak_kata_active :: "int \<rightharpoonup> guess_session"
  tebak_gambar_active :: "int \<rightharpoonup> guess_session"
  trivia_active :: "int \<rightharpoonup> trivia_question"
  sambung_kata_active :: "int \<rightharpoonup> 'c chain_session"

text \<open>
  The start commands. What \<^verbatim>\<open>random.choice\<close> picks and the id of the prompt message that was
  sent are arguments. \<^verbatim>\<open>tebak_kata\<close> returns the scrambled word it shows. The slash commands
  \<^verbatim>\<open>tebak_kata_slash\<close>, \<^verbatim>\<open>tebak_gambar_slash\<close>, \<^verbatim>\<open>trivia_slash\<close> and \<^verbatim>\<open>sambung_kata_slash\<close> make
  the same assignment to the same dictionary.
\<close>

definition tebak_kata ::
  "char shuffler \<Rightarrow> 'c registry \<Rightarrow> int \<Rightarrow> string \<Rightarrow> int \<Rightarrow> string \<times> 'c registry" where
  "tebak_kata shuffle reg channel_id choice prompt =
     (let scrambled = shuffle_word shuffle choice
      in (scrambled,
          reg\<lparr>tebak_kata_active :=
                (tebak_kata_active reg)(channel_id \<mapsto> \<lparr>answer = lower choice, prompt_id = prompt\<rparr>)\<rparr>))"

definition tebak_gambar ::
  "'c registry \<Rightarrow> int \<Rightarrow> string \<times> string \<Rightarrow> int \<Rightarrow> 'c registry" where
  "tebak_gambar reg channel_id choice prompt =
     reg\<lparr>tebak_gambar_active :=
           (tebak_gambar_active reg)(channel_id \<mapsto> \<lparr>answer = lower (fst choice), prompt_id = prompt\<rparr>)\<rparr>"

definition trivia :: "'c registry \<Rightarrow> int \<Rightarrow> trivia_question \<Rightarrow> 'c registry" where
  "trivia reg channel_id q = reg\<lparr>trivia_active := (trivia_active reg)(channel_id \<mapsto> q)\<rparr>"

definition sambung_kata :: "'c registry \<Rightarrow> int \<Rightarrow> 'c list \<Rightarrow> 'c registry" where
  "sambung_kata reg channel_id seed =
     reg\<lparr>sambung_kata_active :=
           (sambung_kata_active reg)(channel_id \<mapsto> \<lparr>last_word = seed, used_words = {seed}\<rparr>)\<rparr>"

text \<open>\<^verbatim>\<open>WORD_BANK\<close>, from which the word games pick their word.\<close>

definition WORD_BANK :: "string list" where
  "WORD_BANK =
     [''komputer'', ''discord'', ''python'', ''internet'', ''keyboard'', ''monitor'',
      ''program'', ''database'', ''jaringan'', ''teknologi'', ''aplikasi'', ''algoritma'']"

subsection \<open>Word chain\<close>

text \<open>
  The replies of \<^verbatim>\<open>kata\<close>, one per message text: no game in the channel, word too short,
  word already used, wrong first letter (with the letter required), and the accepted word
  with the player's new total.
\<close>

datatype 'c kata_reply =
  NoGame
  | TooShort
  | AlreadyUsed
  | MustStartWith 'c
  | Valid "'c list" int

text \<open>
  \<^verbatim>\<open>kata\<close> (and \<^verbatim>\<open>kata_slash\<close>, which has the same body), with the string methods of the
  Python library as its first argument. \<^verbatim>\<open>last_word[-1]\<close> raises IndexError
  on an empty string; \<^verbatim>\<open>cleaned[0]\<close> is read only when \<^verbatim>\<open>cleaned\<close> has three characters or
  more.
\<close>

definition kata ::
  "'c str_methods \<Rightarrow> 'c registry \<Rightarrow> game_data \<Rightarrow> int \<Rightarrow> int \<Rightarrow> 'c list
     \<Rightarrow> py_error + ('c kata_reply \<times> 'c registry \<times> game_data)" where
  "kata py reg g channel_id author word =
     (case sambung_kata_active reg channel_id of
        None \<Rightarrow> Inr (NoGame, reg, g)
      | Some state \<Rightarrow>
          (let cleaned = clean_word py word
           in if length cleaned < 3 then Inr (TooShort, reg, g)
              else if cleaned \<in> used_words state then Inr (AlreadyUsed, reg, g)
              else if last_word state = [] then Inl IndexError
              else let required = last (last_word state)
                   in if hd cleaned \<noteq> required then Inr (MustStartWith required, reg, g)
                      else let state' = \<lparr>last_word = cleaned,
                                         used_words = insert cleaned (used_words state)\<rparr>;
                               reg' = reg\<lparr>sambung_kata_active :=
                                            (sambung_kata_active reg)(channel_id \<mapsto> state')\<rparr>
                           in case add_points g author 2 of
                                Inl e \<Rightarrow> Inl e
                              | Inr (new_pts, g') \<Rightarrow> Inr (Valid cleaned new_pts, reg', g')))"


text \<open>A submitted word is accepted when \<^verbatim>\<open>kata\<close> reaches its last message, the one of a valid word.\<close>

fun accepted :: "py_error + ('c kata_reply \<times> 'c registry \<times> game_data) \<Rightarrow> bool" where
  "accepted (Inr (Valid w pts, reg, g)) = True"
| "accepted r = False"

section \<open>Debate scheduler (bot.py, DEBATE REFEREE)\<close>

text \<open>
  The dataclass \<^verbatim>\<open>DebateSession\<close>. Its field \<^verbatim>\<open>points\<close> is \<open>debate_points\<close> here (the ledger
  has a \<open>points\<close> already); the side labels \<^verbatim>\<open>'PRO'\<close> and \<^verbatim>\<open>'KONTRA'\<close> are an enumeration.
\<close>

datatype side = PRO | KONTRA

record DebateSession =
  guild_id :: int
  channel_id :: int
  topic :: string
  turn_seconds :: int
  rounds :: int
  pro :: "int list"
  kontra :: "int list"
  debate_points :: "(int \<times> side) list"
  running :: bool

text \<open>\<^verbatim>\<open>_side_of_user\<close>.\<close>

definition side_of_user :: "DebateSession \<Rightarrow> int \<Rightarrow> side option" where
  "side_of_user s uid =
     (if uid \<in> set (pro s) then Some PRO
      else if uid \<in> set (kontra s) then Some KONTRA
      else None)"

subsection \<open>The runner, one resumption at a time\<close>

text \<open>
  \<^verbatim>\<open>debate_runner\<close> is a coroutine: it runs until its next \<^verbatim>\<open>await\<close>, is suspended there,
  and is resumed later by the event loop. It awaits in four places: the send of the opening
  message, the send of a turn notification, the sleep after it, and the send of the closing
  message. What the runner does is recorded as a list of actions: the messages it sends and
  the sleeps it starts.
\<close>

datatype action =
  Announce string int
  | TurnNotice int int side int int
  | Sleep int
  | Summary nat nat

text \<open>
  Where a runner is suspended. \<open>AwaitTurn r sd i\<close> and \<open>AwaitSleep r sd i\<close> belong to the
  turn of round \<open>r\<close>, side \<open>sd\<close> and index \<open>i\<close> in that side's list; \<open>Done\<close> is a runner that
  has returned or was ended by its cancellation.
\<close>

datatype position =
  NotStarted
  | AwaitAnnounce
  | AwaitTurn int side nat
  | AwaitSleep int side nat
  | AwaitSummary
  | Done

definition lineup :: "DebateSession \<Rightarrow> side \<Rightarrow> int list" where
  "lineup s sd = (case sd of PRO \<Rightarrow> pro s | KONTRA \<Rightarrow> kontra s)"

text \<open>
  The three nested \<^verbatim>\<open>for\<close> loops, as the search for the next turn from round \<open>r\<close>, side
  \<open>sd\<close> and index \<open>i\<close>: \<^verbatim>\<open>for r in range(1, session.rounds + 1)\<close>, then the two sides in the
  order PRO, KONTRA, then the users of the side's list by index. \<open>None\<close> is the end of the
  outer loop.
\<close>

function next_turn :: "DebateSession \<Rightarrow> int \<Rightarrow> side \<Rightarrow> nat \<Rightarrow> (int \<times> side \<times> nat) option" where
  "next_turn s r sd i =
     (if rounds s < r then None
      else if i < length (lineup s sd) then Some (r, sd, i)
      else (case sd of PRO \<Rightarrow> next_turn s r KONTRA 0 | KONTRA \<Rightarrow> next_turn s (r + 1) PRO 0))"
  by pat_completeness auto
termination
  by (relation "measure (\<lambda>(s, r, sd, i).
        2 * nat (rounds s + 1 - r) + (case sd of PRO \<Rightarrow> 1 | KONTRA \<Rightarrow> 0))") auto

declare next_turn.simps [simp del]

text \<open>
  The code from a point of the loops to the next \<^verbatim>\<open>await\<close>. With a turn left, the runner
  tests \<^verbatim>\<open>session.running\<close>, returns if it is cleared, and sends the notification otherwise.
  With no turn left it clears \<^verbatim>\<open>session.running\<close>, counts the points and sends the closing
  message.
\<close>

definition enter_turn ::
  "DebateSession \<Rightarrow> int \<Rightarrow> side \<Rightarrow> nat \<Rightarrow> DebateSession \<times> position \<times> action list" where
  "enter_turn s r sd i =
     (case next_turn s r sd i of
        None \<Rightarrow>
          (let s' = s\<lparr>running := False\<rparr>;
               pro_points = filter (\<lambda>(u, p). p = PRO) (debate_points s');
               kontra_points = filter (\<lambda>(u, p). p = KONTRA) (debate_points s')
           in (s', AwaitSummary, [Summary (length pro_points) (length kontra_points)]))
      | Some (r', sd', i') \<Rightarrow>
          if \<not> running s then (s, Done, [])
          else (s, AwaitTurn r' sd' i',
                [TurnNotice r' (rounds s) sd' (lineup s sd' ! i') (turn_seconds s)]))"

text \<open>
  One resumption of the runner: from where it is suspended to its next \<^verbatim>\<open>await\<close> or its
  return. \<open>found\<close> says whether \<^verbatim>\<open>bot.get_channel\<close> finds the channel.
\<close>

fun runner_step ::
  "bool \<Rightarrow> DebateSession \<Rightarrow> position \<Rightarrow> DebateSession \<times> position \<times> action list" where
  "runner_step found s NotStarted =
     (if \<not> found then (s, Done, [])
      else (s\<lparr>running := True\<rparr>, AwaitAnnounce, [Announce (topic s) (turn_seconds s)]))"
| "runner_step found s AwaitAnnounce = enter_turn s 1 PRO 0"
| "runner_step found s (AwaitTurn r sd i) = (s, AwaitSleep r sd i, [Sleep (turn_seconds s)])"
| "runner_step found s (AwaitSleep r sd i) = enter_turn s r sd (Suc i)"
| "runner_step found s AwaitSummary = (s, Done, [])"
| "runner_step found s Done = (s, Done, [])"

text \<open>
  A runner that nothing interferes with: \<open>n\<close> resumptions in a row, the channel being found,
  with the actions collected.
\<close>

fun run_alone ::
  "nat \<Rightarrow> DebateSession \<times> position \<times> action list \<Rightarrow> DebateSession \<times> position \<times> action list" where
  "run_alone 0 x = x"
| "run_alone (Suc n) (s, pos, acts) =
     (case runner_step True s pos of (s', pos', new) \<Rightarrow> run_alone n (s', pos', acts @ new))"

text \<open>
  The turn sequence of the specification: for each round from 1 to \<^verbatim>\<open>rounds\<close>, the users of
  PRO in the order of the list, then the users of KONTRA, each notification followed by a
  sleep of \<^verbatim>\<open>turn_seconds\<close>.
\<close>

definition side_turns :: "DebateSession \<Rightarrow> int \<Rightarrow> side \<Rightarrow> int list \<Rightarrow> action list" where
  "side_turns s r sd us =
     concat (map (\<lambda>u. [TurnNotice r (rounds s) sd u (turn_seconds s), Sleep (turn_seconds s)]) us)"

definition round_turns :: "DebateSession \<Rightarrow> int \<Rightarrow> action list" where
  "round_turns s r = side_turns s r PRO (pro s) @ side_turns s r KONTRA (kontra s)"

definition all_turns :: "DebateSession \<Rightarrow> action list" where
  "all_turns s = concat (map (round_turns s) [1..rounds s])"

fun is_turn :: "action \<Rightarrow> bool" where
  "is_turn (TurnNotice r n sd u secs) = True"
| "is_turn a = False"

subsection \<open>Sessions, tasks and commands\<close>

text \<open>
  The commands and the runners share session objects: \<^verbatim>\<open>debate_sessions\<close> maps a channel to a
  session object, a runner keeps the object it was started with, and \<^verbatim>\<open>debat_mulai\<close> puts a
  new object in the dictionary while a runner may still hold the old one. So the session
  objects live in a store, \<open>heap\<close>, and are referred to by their index in it; a new object
  is appended. The tasks made by \<^verbatim>\<open>asyncio.create_task\<close> are kept the same way in \<open>tasks\<close>, and
  \<^verbatim>\<open>debate_tasks\<close> maps a channel to the index of a task.

  Of a task the model keeps the session object of its runner, where the runner is suspended,
  and whether \<^verbatim>\<open>cancel()\<close> was called on it. \<^verbatim>\<open>task.done()\<close> is the position \<open>Done\<close>.
\<close>

record runner_task =
  session_ref :: nat
  position :: position
  cancel_requested :: bool

text \<open>The replies of the commands, one per message text.\<close>

datatype reply =
  BadSetup
  | SessionCreated
  | NoSession
  | AlreadyRunning
  | BadSide
  | Joined side
  | NeedBothSides
  | TimerStarted
  | NotJoined
  | PointLogged side
  | Stopped

text \<open>
  \<open>sent\<close> is what the runners have done so far, each action with the index of the task that
  did it; \<open>replies\<close> is what the commands have answered, each with its channel.
\<close>

record scheduler =
  heap :: "DebateSession list"
  debate_sessions :: "int \<rightharpoonup> nat"
  debate_tasks :: "int \<rightharpoonup> nat"
  tasks :: "runner_task list"
  sent :: "(nat \<times> action) list"
  replies :: "(int \<times> reply) list"

definition initial :: scheduler where
  "initial = \<lparr>heap = [], debate_sessions = Map.empty, debate_tasks = Map.empty, tasks = [],
              sent = [], replies = []\<rparr>"

definition say :: "scheduler \<Rightarrow> int \<Rightarrow> reply \<Rightarrow> scheduler" where
  "say st c r = st\<lparr>replies := replies st @ [(c, r)]\<rparr>"

text \<open>\<^verbatim>\<open>debate_sessions.get(ctx.channel.id)\<close>: the session object of the channel and its index.\<close>

definition get_session :: "scheduler \<Rightarrow> int \<Rightarrow> (nat \<times> DebateSession) option" where
  "get_session st c =
     (case debate_sessions st c of
        None \<Rightarrow> None
      | Some ref \<Rightarrow> if ref < length (heap st) then Some (ref, heap st ! ref) else None)"

text \<open>\<^verbatim>\<open>if task and not task.done(): task.cancel()\<close>.\<close>

definition cancel_task :: "runner_task list \<Rightarrow> nat \<Rightarrow> runner_task list" where
  "cancel_task ts t =
     (if t < length ts \<and> position (ts ! t) \<noteq> Done
      then ts[t := (ts ! t)\<lparr>cancel_requested := True\<rparr>] else ts)"

definition cancel_task_of :: "scheduler \<Rightarrow> int \<Rightarrow> runner_task list" where
  "cancel_task_of st c =
     (case debate_tasks st c of None \<Rightarrow> tasks st | Some t \<Rightarrow> cancel_task (tasks st) t)"

definition debat_mulai :: "scheduler \<Rightarrow> int \<Rightarrow> int \<Rightarrow> int \<Rightarrow> int \<Rightarrow> string \<Rightarrow> scheduler" where
  "debat_mulai st c guild secs rnds tp =
     (if secs < 10 \<or> rnds < 1 then say st c BadSetup
      else say (st\<lparr>heap := heap st @
                     [\<lparr>guild_id = guild, channel_id = c, topic = tp, turn_seconds = secs,
                       rounds = rnds, pro = [], kontra = [], debate_points = [],
                       running = False\<rparr>],
                   debate_sessions := (debate_sessions st)(c \<mapsto> length (heap st))\<rparr>)
             c SessionCreated)"

definition debat_join :: "scheduler \<Rightarrow> int \<Rightarrow> int \<Rightarrow> string \<Rightarrow> scheduler" where
  "debat_join st c uid side_text =
     (case get_session st c of
        None \<Rightarrow> say st c NoSession
      | Some (ref, s) \<Rightarrow>
          if running s then say st c AlreadyRunning
          else let sd = strip (lower side_text)
               in if sd \<notin> {''pro'', ''kontra''} then say st c BadSide
                  else let s1 = (if uid \<in> set (pro s) then s\<lparr>pro := remove1 uid (pro s)\<rparr> else s);
                           s2 = (if uid \<in> set (kontra s1)
                                 then s1\<lparr>kontra := remove1 uid (kontra s1)\<rparr> else s1);
                           s3 = (if sd = ''pro'' then s2\<lparr>pro := pro s2 @ [uid]\<rparr>
                                 else s2\<lparr>kontra := kontra s2 @ [uid]\<rparr>)
                       in say (st\<lparr>heap := (heap st)[ref := s3]\<rparr>) c
                            (Joined (if sd = ''pro'' then PRO else KONTRA)))"

definition debat_start :: "scheduler \<Rightarrow> int \<Rightarrow> scheduler" where
  "debat_start st c =
     (case get_session st c of
        None \<Rightarrow> say st c NoSession
      | Some (ref, s) \<Rightarrow>
          if running s then say st c AlreadyRunning
          else if pro s = [] \<or> kontra s = [] then say st c NeedBothSides
          else let ts = cancel_task_of st c
               in say (st\<lparr>tasks := ts @ [\<lparr>session_ref = ref, position = NotStarted,
                                            cancel_requested = False\<rparr>],
                            debate_tasks := (debate_tasks st)(c \<mapsto> length ts)\<rparr>)
                      c TimerStarted)"

definition debat_poin :: "scheduler \<Rightarrow> int \<Rightarrow> int \<Rightarrow> scheduler" where
  "debat_poin st c uid =
     (case get_session st c of
        None \<Rightarrow> say st c NoSession
      | Some (ref, s) \<Rightarrow>
          (case side_of_user s uid of
             None \<Rightarrow> say st c NotJoined
           | Some sd \<Rightarrow>
               say (st\<lparr>heap := (heap st)[ref := s\<lparr>debate_points := debate_points s @ [(uid, sd)]\<rparr>]\<rparr>)
                   c (PointLogged sd)))"

definition debat_stop :: "scheduler \<Rightarrow> int \<Rightarrow> scheduler" where
  "debat_stop st c =
     (case get_session st c of
        None \<Rightarrow> say st c NoSession
      | Some (ref, s) \<Rightarrow>
          say (st\<lparr>heap := (heap st)[ref := s\<lparr>running := False\<rparr>],
                 tasks := cancel_task_of st c,
                 debate_sessions := (debate_sessions st)(c := None)\<rparr>)
              c Stopped)"

text \<open>
  The event loop resumes task \<open>t\<close>. A task that is done stays so. A task on which \<^verbatim>\<open>cancel()\<close>
  was called gets \<^verbatim>\<open>CancelledError\<close> at the \<^verbatim>\<open>await\<close> where it is suspended (or before its first
  statement); \<^verbatim>\<open>debate_runner\<close> has no handler, so the task ends there and does nothing more.
  Any other task runs to its next \<^verbatim>\<open>await\<close>.
\<close>

definition resume :: "scheduler \<Rightarrow> nat \<Rightarrow> bool \<Rightarrow> scheduler" where
  "resume st t found =
     (if \<not> t < length (tasks st) then st
      else let task = tasks st ! t
           in if position task = Done then st
              else if cancel_requested task
                then st\<lparr>tasks := (tasks st)[t := task\<lparr>position := Done\<rparr>]\<rparr>
              else if \<not> session_ref task < length (heap st) then st
              else (case runner_step found (heap st ! session_ref task) (position task) of
                      (s', pos', new) \<Rightarrow>
                        st\<lparr>heap := (heap st)[session_ref task := s'],
                           tasks := (tasks st)[t := task\<lparr>position := pos'\<rparr>],
                           sent := sent st @ map (Pair t) new\<rparr>))"

text \<open>
  What can happen: a command is handled (up to its first \<^verbatim>\<open>await\<close> after the changes it
  makes, which is the send of its reply), or the event loop resumes a task. All of it runs on
  one thread, so the events happen one at a time, in any order.
\<close>

datatype event =
  Mulai int int int int string
  | Join int int string
  | Start int
  | Poin int int
  | Stop int
  | Resume nat bool

fun step :: "scheduler \<Rightarrow> event \<Rightarrow> scheduler" where
  "step st (Mulai c guild secs rnds tp) = debat_mulai st c guild secs rnds tp"
| "step st (Join c uid side_text) = debat_join st c uid side_text"
| "step st (Start c) = debat_start st c"
| "step st (Poin c uid) = debat_poin st c uid"
| "step st (Stop c) = debat_stop st c"
| "step st (Resume t found) = resume st t found"

definition exec :: "event list \<Rightarrow> scheduler" where
  "exec es = foldl step initial es"

text \<open>
  A task is alive when it exists, is not done, and \<^verbatim>\<open>cancel()\<close> was not called on it. Its
  channel is the channel of the session its runner holds, where the runner posts. \<open>sent_by\<close>
  is what a task's runner has done.
\<close>

definition alive :: "scheduler \<Rightarrow> nat \<Rightarrow> bool" where
  "alive st t =
     (t < length (tasks st) \<and> position (tasks st ! t) \<noteq> Done
      \<and> \<not> cancel_requested (tasks st ! t))"

definition task_channel :: "scheduler \<Rightarrow> nat \<Rightarrow> int" where
  "task_channel st t = channel_id (heap st ! session_ref (tasks st ! t))"

definition sent_by :: "scheduler \<Rightarrow> nat \<Rightarrow> action list" where
  "sent_by st t = map snd (filter (\<lambda>(t', a). t' = t) (sent st))"

text \<open>
  The runner as it stands after the code of \<open>enter_turn\<close>, with the actions done before.
\<close>

definition at_loop ::
  "DebateSession \<Rightarrow> int \<Rightarrow> side \<Rightarrow> nat \<Rightarrow> action list
     \<Rightarrow> DebateSession \<times> position \<times> action list" where
  "at_loop s r sd i acts =
     (case enter_turn s r sd i of (s', pos', new) \<Rightarrow> (s', pos', acts @ new))"

text \<open>
  What holds of every state the scheduler reaches: the session registered for a channel is
  an object of the store and has that channel as its \<^verbatim>\<open>channel_id\<close>; the session of every task
  is an object of the store; and an alive task is the one registered in \<^verbatim>\<open>debate_tasks\<close> for
  its channel.
\<close>

definition consistent :: "scheduler \<Rightarrow> bool" where
  "consistent st =
     ((\<forall>c ref. debate_sessions st c = Some ref \<longrightarrow>
          ref < length (heap st) \<and> channel_id (heap st ! ref) = c)
      \<and> (\<forall>t<length (tasks st). session_ref (tasks st ! t) < length (heap st))
      \<and> (\<forall>t. alive st t \<longrightarrow> debate_tasks st (task_channel st t) = Some t))"

section \<open>Examples used below\<close>

text \<open>The dealer hand of ace and six, a ledger with two accounts, a registry with one word game.\<close>

definition soft_seventeen :: "card list" where
  "soft_seventeen = [\<lparr>suit = Spades, rank = Ace\<rparr>, \<lparr>suit = Hearts, rank = Six\<rparr>]"

definition ledger_example :: game_data where
  "ledger_example = \<lparr>points = [1 \<mapsto> 30, 2 \<mapsto> 5], cooldowns = Map.empty\<rparr>"

definition registry_example :: "char registry" where
  "registry_example =
     \<lparr>tebak_kata_active = [7 \<mapsto> \<lparr>answer = ''python'', prompt_id = 100\<rparr>],
      tebak_gambar_active = Map.empty,
      trivia_active = Map.empty,
      sambung_kata_active = [7 \<mapsto> \<lparr>last_word = ''kata'', used_words = {''kata''}\<rparr>]\<rparr>"

text \<open>
  The debate of the specification's example: two rounds, users 1 and 2 on the PRO side, user
  3 on the KONTRA side, started in channel 5. In \<open>replaced_run\<close> its runner has sent the
  first turn and sleeps when a new session is defined in the channel and joined.
\<close>

definition debate_example :: "event list" where
  "debate_example =
     [Mulai 5 1 10 2 ''topik'', Join 5 1 ''pro'', Join 5 2 '' PRO '', Join 5 3 ''kontra'', Start 5]"

definition replaced_run :: "event list" where
  "replaced_run =
     debate_example @ [Resume 0 True, Resume 0 True, Resume 0 True,
       Mulai 5 1 10 1 ''ulang'', Join 5 1 ''pro'', Join 5 3 ''kontra'']"

definition resumes_after :: "event list" where
  "resumes_after = [Resume 0 True, Resume 1 True, Resume 0 True, Resume 1 True]"

section \<open>Properties of the card engine\<close>

text \<open>
  The total of \<^verbatim>\<open>calculate_hand_value\<close> is as the specification has it: the first loop sums
  the card values with every ace at 11 and counts the aces, and the second loop takes 10
  off per ace until the total is 21 or less or no ace is left at 11.
\<close>

lemma count_cards_sum:
  "count_cards cs tot aces
     = (tot + (\<Sum>c\<leftarrow>cs. card_value c), aces + int (length (filter (\<lambda>c. rank c = Ace) cs)))"
  by (induction cs arbitrary: tot aces) (simp_all add: card_value_def)

lemma calculate_hand_value_total:
  "fst (calculate_hand_value cs)
     = fst (adjust_aces (\<Sum>c\<leftarrow>cs. card_value c) (int (length (filter (\<lambda>c. rank c = Ace) cs))))"
  by (simp add: calculate_hand_value_def count_cards_sum split: prod.splits)

lemma adjust_aces_exhaustive: "adjust_aces tot aces = (t', a') \<Longrightarrow> \<not> (21 < t' \<and> 0 < a')"
proof (induction tot aces rule: adjust_aces.induct)
  case (1 tot aces)
  then show ?case
    by (cases "tot > 21 \<and> aces > 0") (use adjust_aces.simps [of tot aces] in auto)
qed

lemma adjust_aces_sum:
  "adjust_aces tot aces = (t', a') \<Longrightarrow> t' - 10 * a' = tot - 10 * aces \<and> (0 \<le> aces \<longrightarrow> a' \<le> aces)"
proof (induction tot aces rule: adjust_aces.induct)
  case (1 tot aces)
  then show ?case
    by (cases "tot > 21 \<and> aces > 0") (use adjust_aces.simps [of tot aces] in auto)
qed

text \<open>
  The flag \<^verbatim>\<open>is_soft\<close> asks for \<^verbatim>\<open>total + 10 <= 21\<close> with an ace still at 11, and such a hand has
  a total of at least 11: the flag is set on a total of 11 only. The second disjunct of the
  dealer's loop condition, \<^verbatim>\<open>dealer_value == 17 and dealer_soft\<close>, is therefore never true.
\<close>

lemma is_soft_only_at_eleven:
  assumes "snd (calculate_hand_value cs)"
  shows "fst (calculate_hand_value cs) = 11"
proof -
  obtain k where k: "0 \<le> k" "k \<le> hard_total cs" "count_cards cs 0 0 = (hard_total cs + 10 * k, k)"
    using count_cards_hard [of cs 0 0] by auto
  obtain t' a' where ta: "adjust_aces (hard_total cs + 10 * k) k = (t', a')"
    by fastforce
  have v: "calculate_hand_value cs = (t', a' > 0 \<and> t' + 10 \<le> 21)"
    using k ta by (simp add: calculate_hand_value_def)
  have a: "0 < a'" "t' \<le> 11"
    using assms v by simp_all
  have "t' - 10 * a' = hard_total cs" "a' \<le> k"
    using adjust_aces_sum [OF ta] k by simp_all
  then have "t' = 11"
    using a k by linarith
  then show ?thesis using v by simp
qed

text \<open>When the dealer's loop ends normally, the dealer's total is 17 or more.\<close>

lemma dealer_loop_final:
  "dealer_loop shuffle d hand = Inr (d', hand') \<Longrightarrow> 17 \<le> fst (calculate_hand_value hand')"
proof (induction shuffle d hand rule: dealer_loop.induct)
  case (1 shuffle d hand)
  show ?case
  proof (cases "fst (calculate_hand_value hand) < 17
         \<or> (fst (calculate_hand_value hand) = 17 \<and> snd (calculate_hand_value hand))")
    case True
    then show ?thesis
      using "1.prems" "1.IH" dealer_loop.simps [of shuffle d hand]
      by (auto split: sum.splits prod.splits)
  next
    case False
    then have "dealer_loop shuffle d hand = Inr (d, hand)"
      using dealer_loop.simps [of shuffle d hand] by auto
    then show ?thesis using "1.prems" False by auto
  qed
qed

text \<open>
  C2 (the code departs from the claim). On ace and six the adjustment loop does not run: the
  total is 17 and the ace is still counted as 11, yet \<^verbatim>\<open>calculate_hand_value\<close> reports the
  hand as not soft.
\<close>

theorem calculate_hand_value_soft_seventeen:
  "calculate_hand_value soft_seventeen = (17, False) \<and> aces_as_eleven soft_seventeen = 1"
  by (simp add: soft_seventeen_def calculate_hand_value_def aces_as_eleven_def card_value_def
      adjust_aces.simps)

text \<open>
  C1 (the code departs from the claim). With ace and six in the dealer's hand the loop of
  \<^verbatim>\<open>play_dealer\<close> draws no card, whatever the deck: the dealer stands on soft 17.
\<close>

theorem play_dealer_stands_on_soft_seventeen:
  "dealer_loop shuffle d soft_seventeen = Inr (d, soft_seventeen)
   \<and> map_sum id dealer_hand (play_dealer shuffle (g\<lparr>dealer_hand := soft_seventeen\<rparr>))
       = Inr soft_seventeen"
proof -
  have v: "calculate_hand_value soft_seventeen = (17, False)"
    by (simp add: soft_seventeen_def calculate_hand_value_def card_value_def adjust_aces.simps)
  have l: "dealer_loop shuffle d' soft_seventeen = Inr (d', soft_seventeen)" for d'
    by (subst dealer_loop.simps) (simp add: v)
  show ?thesis
    by (simp add: l play_dealer_def Let_def)
qed


section \<open>Properties of the ledger\<close>

lemma points_ensure:
  "points (ensure_user_data g u) w = (if w = u then Some (balance g u) else points g w)"
  by (simp add: ensure_user_data_def setdefault_def balance_def split: option.splits)

lemma balance_ensure: "balance (ensure_user_data g u) w = balance g w"
  by (simp add: balance_def points_ensure)

lemma nonneg_ensure: "balances_nonneg g \<Longrightarrow> balances_nonneg (ensure_user_data g u)"
  by (auto simp: balances_nonneg_def points_ensure balance_def split: option.splits if_splits)

lemma get_points_result: "get_points g u = Inr (balance g u, ensure_user_data g u)"
  by (simp add: get_points_def getitem_def points_ensure Let_def)

lemma add_points_result:
  "add_points g u d =
     Inr (max 0 (balance g u + d),
          (ensure_user_data g u)
            \<lparr>points := (points (ensure_user_data g u))(u \<mapsto> max 0 (balance g u + d))\<rparr>)"
  by (simp add: add_points_def getitem_def points_ensure Let_def)

lemma transfer_points_result:
  "transfer_points g a b amt =
     (let g2 = ensure_user_data (ensure_user_data g a) b;
          r = min (max 0 amt) (balance g a);
          p3 = (points g2)(a \<mapsto> balance g a - r)
      in Inr (r, g2\<lparr>points := p3(b \<mapsto> (if b = a then balance g a - r else balance g b) + r)\<rparr>))"
  by (simp add: transfer_points_def getitem_def points_ensure Let_def balance_ensure)

lemma ledger_example_nonneg: "balances_nonneg ledger_example"
  by (simp add: balances_nonneg_def ledger_example_def)

lemma ledger_example_balance:
  "balance ledger_example 1 = 30" "balance ledger_example 2 = 5"
  by (simp_all add: balance_def ledger_example_def)

text \<open>
  C9. On a ledger whose stored balances are all at least 0, each of \<^verbatim>\<open>get_points\<close>,
  \<^verbatim>\<open>add_points\<close> and \<^verbatim>\<open>transfer_points\<close> returns without an exception and leaves a ledger
  whose stored balances are all at least 0; \<^verbatim>\<open>get_points\<close> returns a balance that is at
  least 0, and \<^verbatim>\<open>add_points\<close> returns \<open>max 0 (old + delta)\<close>, which is the user's new balance
  (a negative delta larger than the balance gives 0, not an error).
\<close>

theorem ledger_balances_nonneg:
  assumes "balances_nonneg g"
  shows "(\<exists>g'. get_points g u = Inr (balance g u, g') \<and> 0 \<le> balance g u \<and> balances_nonneg g')
       \<and> (\<exists>g'. add_points g u d = Inr (max 0 (balance g u + d), g')
               \<and> balance g' u = max 0 (balance g u + d) \<and> balances_nonneg g')
       \<and> (\<exists>r g'. transfer_points g a b amt = Inr (r, g') \<and> balances_nonneg g')"
proof -
  have b: "0 \<le> balance g w" for w
    using assms by (auto simp: balances_nonneg_def balance_def split: option.splits)
  have 1: "balances_nonneg (ensure_user_data g u)"
    using assms by (rule nonneg_ensure)
  have 2: "balances_nonneg ((ensure_user_data g u)
             \<lparr>points := (points (ensure_user_data g u))(u \<mapsto> max 0 (balance g u + d))\<rparr>)"
    using 1 by (auto simp: balances_nonneg_def)
  have 3: "balance ((ensure_user_data g u)
             \<lparr>points := (points (ensure_user_data g u))(u \<mapsto> max 0 (balance g u + d))\<rparr>) u
           = max 0 (balance g u + d)"
    by (simp add: balance_def)
  have 4: "balances_nonneg (ensure_user_data (ensure_user_data g a) b)"
    using assms by (intro nonneg_ensure)
  have 5: "\<exists>r g'. transfer_points g a b amt = Inr (r, g') \<and> balances_nonneg g'"
    using 4 b [of a] b [of b]
    by (auto simp: transfer_points_result Let_def balances_nonneg_def)
  show ?thesis
    using b [of u] 1 2 3 5 by (simp add: get_points_result add_points_result)
qed

text \<open>The example of the specification: 1000 points taken from a balance of 30 leave 0.\<close>

theorem ledger_balances_nonneg_witness:
  "balances_nonneg ledger_example
   \<and> (\<exists>g'. get_points ledger_example 1 = Inr (30, g') \<and> balances_nonneg g')
   \<and> (\<exists>g'. add_points ledger_example 1 (- 1000) = Inr (0, g')
           \<and> balance g' 1 = 0 \<and> balances_nonneg g')
   \<and> (\<exists>r g'. transfer_points ledger_example 1 2 40 = Inr (r, g') \<and> balances_nonneg g')"
  using ledger_balances_nonneg [OF ledger_example_nonneg, of 1 "- 1000" 1 2 40]
  by (simp add: ledger_example_nonneg ledger_example_balance)

text \<open>
  C4, as stated, fails on a negative request: \<^verbatim>\<open>transfer_points\<close> moves 0 points, which is not
  \<open>min amount balance\<close> and is not at most it.
\<close>

theorem transfer_points_negative_counterexample:
  "map_sum id fst (transfer_points ledger_example 1 2 (- 5)) = Inr 0
   \<and> \<not> (0 \<le> min (- 5) (balance ledger_example 1))"
  by (simp add: transfer_points_result Let_def ledger_example_balance)

text \<open>
  C4, amended. \<^verbatim>\<open>transfer_points\<close> first raises a negative request to 0 and then clamps it to
  the sender's balance: the amount moved is \<open>min (max 0 amount) balance\<close>, which is
  \<open>min amount balance\<close> for a request of 0 or more. A sender whose balance is at least 0 keeps
  a balance of at least 0, the amount is taken from the sender and given to the receiver,
  and the sum of the two balances is unchanged.
\<close>

theorem transfer_points_clamped:
  assumes "0 \<le> balance g a"
  shows "\<exists>g'. transfer_points g a b amt = Inr (min (max 0 amt) (balance g a), g')
            \<and> 0 \<le> balance g' a
            \<and> 0 \<le> min (max 0 amt) (balance g a)
            \<and> min (max 0 amt) (balance g a) \<le> balance g a
            \<and> (0 \<le> amt \<longrightarrow> min (max 0 amt) (balance g a) = min amt (balance g a))
            \<and> (a \<noteq> b \<longrightarrow> balance g' a = balance g a - min (max 0 amt) (balance g a)
                        \<and> balance g' b = balance g b + min (max 0 amt) (balance g a))
            \<and> balance g' a + balance g' b = balance g a + balance g b"
  using assms
  by (auto simp: transfer_points_result Let_def balance_def points_ensure)

theorem transfer_points_clamped_witness:
  "0 \<le> balance ledger_example 1 \<and> (0::int) \<le> 40 \<and> (1::int) \<noteq> 2
   \<and> (\<exists>g'. transfer_points ledger_example 1 2 40 = Inr (30, g')
           \<and> balance g' 1 = 0 \<and> balance g' 2 = 35)"
proof -
  have h: "0 \<le> balance ledger_example 1"
    by (simp add: ledger_example_balance)
  show ?thesis
    using transfer_points_clamped [OF h, of 2 40] by (auto simp: ledger_example_balance)
qed

text \<open>
  C10. A negative request to a sender whose balance is at least 0 moves 0 points, and every
  balance of the ledger is what it was.
\<close>

theorem transfer_points_negative:
  assumes "amt < 0" and "0 \<le> balance g a"
  shows "\<exists>g'. transfer_points g a b amt = Inr (0, g') \<and> (\<forall>u. balance g' u = balance g u)"
  using assms
  by (auto simp: transfer_points_result Let_def balance_def points_ensure)

theorem transfer_points_negative_witness:
  "(- 5 :: int) < 0 \<and> 0 \<le> balance ledger_example 1
   \<and> (\<exists>g'. transfer_points ledger_example 1 2 (- 5) = Inr (0, g')
           \<and> balance g' 1 = 30 \<and> balance g' 2 = 5)"
proof -
  have h: "(- 5 :: int) < 0" "0 \<le> balance ledger_example 1"
    by (simp_all add: ledger_example_balance)
  show ?thesis
    using transfer_points_negative [OF h, of 2] by (auto simp: ledger_example_balance)
qed


section \<open>Properties of the puzzle generator\<close>







section \<open>Properties of the session registry\<close>

text \<open>
  C3, as stated, fails: channel 7 holds a word game with the answer \<^verbatim>\<open>python\<close>, and
  \<^verbatim>\<open>tebak_kata\<close> in that channel puts the new game in its place.
\<close>

theorem tebak_kata_active_counterexample:
  "tebak_kata_active registry_example 7 = Some \<lparr>answer = ''python'', prompt_id = 100\<rparr>
   \<and> tebak_kata_active (snd (tebak_kata turning registry_example 7 ''discord'' 101)) 7
       = Some \<lparr>answer = ''discord'', prompt_id = 101\<rparr>"
proof -
  have "lower ''discord'' = ''discord''"
    by code_simp
  then show ?thesis
    by (simp add: tebak_kata_def registry_example_def Let_def)
qed

text \<open>
  C3, amended. None of the four start commands looks at the dictionary before it writes:
  whether or not the channel holds a session of the kind, the command succeeds, the
  channel's session of that kind is the new one, the sessions of that kind in other
  channels are unchanged, and so are the sessions of the other kinds.
\<close>

theorem start_replaces_session:
  "tebak_kata_active (snd (tebak_kata shuffle reg c w p)) c
     = Some \<lparr>answer = lower w, prompt_id = p\<rparr>
   \<and> tebak_gambar_active (tebak_gambar reg c e p) c
     = Some \<lparr>answer = lower (fst e), prompt_id = p\<rparr>
   \<and> trivia_active (trivia reg c q) c = Some q
   \<and> sambung_kata_active (sambung_kata reg c seed) c
     = Some \<lparr>last_word = seed, used_words = {seed}\<rparr>
   \<and> (\<forall>c'. c' \<noteq> c \<longrightarrow>
         tebak_kata_active (snd (tebak_kata shuffle reg c w p)) c' = tebak_kata_active reg c'
         \<and> tebak_gambar_active (tebak_gambar reg c e p) c' = tebak_gambar_active reg c'
         \<and> trivia_active (trivia reg c q) c' = trivia_active reg c'
         \<and> sambung_kata_active (sambung_kata reg c seed) c' = sambung_kata_active reg c')
   \<and> tebak_gambar_active (snd (tebak_kata shuffle reg c w p)) = tebak_gambar_active reg
   \<and> trivia_active (snd (tebak_kata shuffle reg c w p)) = trivia_active reg
   \<and> sambung_kata_active (snd (tebak_kata shuffle reg c w p)) = sambung_kata_active reg
   \<and> tebak_kata_active (tebak_gambar reg c e p) = tebak_kata_active reg
   \<and> trivia_active (tebak_gambar reg c e p) = trivia_active reg
   \<and> sambung_kata_active (tebak_gambar reg c e p) = sambung_kata_active reg
   \<and> tebak_kata_active (trivia reg c q) = tebak_kata_active reg
   \<and> tebak_gambar_active (trivia reg c q) = tebak_gambar_active reg
   \<and> sambung_kata_active (trivia reg c q) = sambung_kata_active reg
   \<and> tebak_kata_active (sambung_kata reg c seed) = tebak_kata_active reg
   \<and> tebak_gambar_active (sambung_kata reg c seed) = tebak_gambar_active reg
   \<and> trivia_active (sambung_kata reg c seed) = trivia_active reg"
  by (simp add: tebak_kata_def tebak_gambar_def trivia_def sambung_kata_def Let_def)

theorem start_replaces_session_witness:
  "tebak_kata_active registry_example 7 \<noteq> None \<and> (8::int) \<noteq> 7
   \<and> tebak_kata_active (snd (tebak_kata turning registry_example 7 ''discord'' 101)) 7
       = Some \<lparr>answer = lower ''discord'', prompt_id = 101\<rparr>
   \<and> tebak_kata_active (snd (tebak_kata turning registry_example 7 ''discord'' 101)) 8
       = tebak_kata_active registry_example 8"
  using start_replaces_session [of turning registry_example 7 "''discord''" 101]
  by (simp add: registry_example_def)

text \<open>
  A word-chain session never has an empty last word: the seed is an entry of \<^verbatim>\<open>WORD_BANK\<close>,
  and a word that replaces it has three characters or more.
\<close>

lemma WORD_BANK_nonempty: "seed \<in> set WORD_BANK \<Longrightarrow> seed \<noteq> []"
  by (auto simp: WORD_BANK_def)

lemma kata_last_word_nonempty:
  assumes "kata py reg g c author w = Inr (r, reg', g')"
    and "\<forall>st. sambung_kata_active reg c' = Some st \<longrightarrow> last_word st \<noteq> []"
    and "sambung_kata_active reg' c' = Some st'"
  shows "last_word st' \<noteq> []"
  using assms
  by (auto simp: kata_def Let_def add_points_result split: option.splits if_splits)

text \<open>
  What \<^verbatim>\<open>clean_word\<close> returns: letters only, taken in their order from the text in lower
  case; and all the letters of the text in lower case, since a code point that \<^verbatim>\<open>isspace\<close>
  accepts is not a letter (which holds of Python's two tests).
\<close>

lemma clean_word_letters: "\<forall>ch\<in>set (clean_word py w). str_isalpha py ch"
  by (simp add: clean_word_def)

lemma subseq_str_strip: "subseq (str_strip py s) s"
proof -
  have "suffix (dropWhile (str_isspace py) (rev (dropWhile (str_isspace py) s)))
          (rev (dropWhile (str_isspace py) s))"
    by (rule suffix_dropWhile)
  then have "prefix (str_strip py s) (dropWhile (str_isspace py) s)"
    unfolding str_strip_def by (simp add: suffix_to_prefix)
  then have "subseq (str_strip py s) (dropWhile (str_isspace py) s)"
    by (rule prefix_imp_subseq)
  moreover have "subseq (dropWhile (str_isspace py) s) s"
    by (rule suffix_imp_subseq) (rule suffix_dropWhile)
  ultimately show ?thesis by (rule subseq_order.trans)
qed

lemma clean_word_subseq: "subseq (clean_word py w) (str_lower py w)"
proof -
  have "subseq (clean_word py w) (str_strip py (str_lower py w))"
    by (simp add: clean_word_def)
  then show ?thesis
    using subseq_str_strip by (rule subseq_order.trans)
qed

lemma filter_dropWhile_other:
  assumes "\<forall>ch. S ch \<longrightarrow> \<not> P ch"
  shows "filter P (dropWhile S xs) = filter P xs"
  using assms by (induction xs) simp_all

lemma clean_word_letters_lowercase:
  assumes "\<forall>ch. str_isspace py ch \<longrightarrow> \<not> str_isalpha py ch"
  shows "clean_word py w = letters_lowercase py w"
proof -
  have "filter (str_isalpha py) (str_strip py s) = filter (str_isalpha py) s" for s
  proof -
    have "filter (str_isalpha py) (str_strip py s)
            = rev (filter (str_isalpha py)
                (dropWhile (str_isspace py) (rev (dropWhile (str_isspace py) s))))"
      by (simp add: str_strip_def rev_filter)
    also have "\<dots> = rev (filter (str_isalpha py) (rev (dropWhile (str_isspace py) s)))"
      using assms by (simp add: filter_dropWhile_other)
    also have "\<dots> = filter (str_isalpha py) (dropWhile (str_isspace py) s)"
      by (simp add: rev_filter)
    also have "\<dots> = filter (str_isalpha py) s"
      using assms by (rule filter_dropWhile_other)
    finally show ?thesis .
  qed
  then show ?thesis
    by (simp add: clean_word_def letters_lowercase_def)
qed

lemma ascii_space_not_letter:
  "\<forall>ch. str_isspace ascii_methods ch \<longrightarrow> \<not> str_isalpha ascii_methods ch"
  by (auto simp: ascii_methods_def isspace_def isalpha_def)

text \<open>
  C6. In a channel with a word-chain session, for every text a player submits and whatever
  the string methods of the library do, \<^verbatim>\<open>kata\<close> accepts the word exactly when its
  normalization has three characters or more, is not in the used set and starts with the
  last character of the session's last word. The normalization is \<^verbatim>\<open>clean_word\<close>: it has
  letters only, taken in their order from the text in lower case, and it is all the letters
  of the text in lower case (no white space being a letter). An accepted word becomes the
  last word and joins the used set. Otherwise registry and ledger are unchanged and the
  reply names the rule: too short, already used, or the letter the word must start with
  (the rules are tested in this order).
\<close>

theorem kata_rules:
  assumes "sambung_kata_active reg c = Some st" and "last_word st \<noteq> []"
  shows "(accepted (kata py reg g c author w)
          \<longleftrightarrow> 3 \<le> length (clean_word py w) \<and> clean_word py w \<notin> used_words st
              \<and> hd (clean_word py w) = last (last_word st))
       \<and> (\<forall>ch\<in>set (clean_word py w). str_isalpha py ch)
       \<and> subseq (clean_word py w) (str_lower py w)
       \<and> ((\<forall>ch. str_isspace py ch \<longrightarrow> \<not> str_isalpha py ch)
          \<longrightarrow> clean_word py w = letters_lowercase py w)
       \<and> (3 \<le> length (clean_word py w) \<and> clean_word py w \<notin> used_words st
            \<and> hd (clean_word py w) = last (last_word st)
          \<longrightarrow> (\<exists>pts g'. kata py reg g c author w =
                  Inr (Valid (clean_word py w) pts,
                       reg\<lparr>sambung_kata_active := (sambung_kata_active reg)
                              (c \<mapsto> \<lparr>last_word = clean_word py w,
                                     used_words = insert (clean_word py w) (used_words st)\<rparr>)\<rparr>,
                       g')))
       \<and> (length (clean_word py w) < 3 \<longrightarrow> kata py reg g c author w = Inr (TooShort, reg, g))
       \<and> (3 \<le> length (clean_word py w) \<and> clean_word py w \<in> used_words st
          \<longrightarrow> kata py reg g c author w = Inr (AlreadyUsed, reg, g))
       \<and> (3 \<le> length (clean_word py w) \<and> clean_word py w \<notin> used_words st
            \<and> hd (clean_word py w) \<noteq> last (last_word st)
          \<longrightarrow> kata py reg g c author w
                = Inr (MustStartWith (last (last_word st)), reg, g))"
proof -
  have rules: "(accepted (kata py reg g c author w)
          \<longleftrightarrow> 3 \<le> length (clean_word py w) \<and> clean_word py w \<notin> used_words st
              \<and> hd (clean_word py w) = last (last_word st))
       \<and> (3 \<le> length (clean_word py w) \<and> clean_word py w \<notin> used_words st
            \<and> hd (clean_word py w) = last (last_word st)
          \<longrightarrow> (\<exists>pts g'. kata py reg g c author w =
                  Inr (Valid (clean_word py w) pts,
                       reg\<lparr>sambung_kata_active := (sambung_kata_active reg)
                              (c \<mapsto> \<lparr>last_word = clean_word py w,
                                     used_words = insert (clean_word py w) (used_words st)\<rparr>)\<rparr>,
                       g')))
       \<and> (length (clean_word py w) < 3 \<longrightarrow> kata py reg g c author w = Inr (TooShort, reg, g))
       \<and> (3 \<le> length (clean_word py w) \<and> clean_word py w \<in> used_words st
          \<longrightarrow> kata py reg g c author w = Inr (AlreadyUsed, reg, g))
       \<and> (3 \<le> length (clean_word py w) \<and> clean_word py w \<notin> used_words st
            \<and> hd (clean_word py w) \<noteq> last (last_word st)
          \<longrightarrow> kata py reg g c author w
                = Inr (MustStartWith (last (last_word st)), reg, g))"
    using assms by (auto simp: kata_def Let_def add_points_result)
  show ?thesis
    using rules clean_word_letters [of py w] clean_word_subseq [of py w]
      clean_word_letters_lowercase [of py w]
    by blast
qed

text \<open>
  A word outside ASCII: a text of letters that is its own lower case, such as a word with
  the letter e acute, is its own normalization, and is accepted under the three rules.
\<close>

lemma clean_word_of_letters:
  assumes "str_lower py w = w" and "\<forall>ch\<in>set w. str_isalpha py ch \<and> \<not> str_isspace py ch"
  shows "clean_word py w = w"
proof -
  have d: "dropWhile (str_isspace py) xs = xs" if "\<forall>ch\<in>set xs. \<not> str_isspace py ch" for xs
    using that by (cases xs) simp_all
  have "str_strip py w = w"
    using assms(2) by (simp add: str_strip_def d)
  then show ?thesis
    using assms by (simp add: clean_word_def)
qed

lemma kata_accepts_letters:
  assumes "sambung_kata_active reg c = Some st" and "last_word st \<noteq> []"
    and "str_lower py w = w" and "\<forall>ch\<in>set w. str_isalpha py ch \<and> \<not> str_isspace py ch"
    and "3 \<le> length w" and "w \<notin> used_words st" and "hd w = last (last_word st)"
  shows "accepted (kata py reg g c author w)"
  using assms clean_word_of_letters [OF assms(3,4)]
  by (auto simp: kata_def Let_def add_points_result)

text \<open>
  The examples of the specification, after \<^verbatim>\<open>kata\<close> with the used set \<^verbatim>\<open>{kata}\<close>: \<^verbatim>\<open>ayam\<close> is
  accepted, \<^verbatim>\<open>an\<close> is too short, \<^verbatim>\<open>kata\<close> is already used, \<^verbatim>\<open>buku\<close> does not start with \<^verbatim>\<open>a\<close>.
\<close>

theorem kata_rules_witness:
  "sambung_kata_active registry_example 7 = Some \<lparr>last_word = ''kata'', used_words = {''kata''}\<rparr>
   \<and> clean_word ascii_methods '' Ayam! '' = letters_lowercase ascii_methods '' Ayam! ''
   \<and> clean_word ascii_methods '' Ayam! '' = ''ayam''
   \<and> accepted (kata ascii_methods registry_example ledger_example 7 1 '' Ayam! '')
   \<and> kata ascii_methods registry_example ledger_example 7 1 ''an''
       = Inr (TooShort, registry_example, ledger_example)
   \<and> kata ascii_methods registry_example ledger_example 7 1 ''Kata''
       = Inr (AlreadyUsed, registry_example, ledger_example)
   \<and> kata ascii_methods registry_example ledger_example 7 1 ''buku''
       = Inr (MustStartWith CHR ''a'', registry_example, ledger_example)"
proof -
  have s: "sambung_kata_active registry_example 7
             = Some \<lparr>last_word = ''kata'', used_words = {''kata''}\<rparr>"
    by (simp add: registry_example_def)
  have n: "last_word \<lparr>last_word = ''kata'', used_words = {''kata''}\<rparr> \<noteq> []"
    by simp
  have c: "clean_word ascii_methods '' Ayam! '' = ''ayam''"
    "clean_word ascii_methods ''an'' = ''an''"
    "clean_word ascii_methods ''Kata'' = ''kata''"
    "clean_word ascii_methods ''buku'' = ''buku''"
    by code_simp+
  have l: "letters_lowercase ascii_methods '' Ayam! '' = ''ayam''"
    "letters_lowercase ascii_methods ''an'' = ''an''"
    "letters_lowercase ascii_methods ''Kata'' = ''kata''"
    "letters_lowercase ascii_methods ''buku'' = ''buku''"
    by code_simp+
  show ?thesis
    using kata_rules [OF s n, of ascii_methods ledger_example 1 "'' Ayam! ''"]
      kata_rules [OF s n, of ascii_methods ledger_example 1 "''an''"]
      kata_rules [OF s n, of ascii_methods ledger_example 1 "''Kata''"]
      kata_rules [OF s n, of ascii_methods ledger_example 1 "''buku''"]
      ascii_space_not_letter
    by (simp add: s c l)
qed


section \<open>Properties of the debate scheduler\<close>

subsection \<open>A runner on its own\<close>

lemma run_alone_add: "run_alone (m + n) x = run_alone n (run_alone m x)"
proof (induction m arbitrary: x)
  case 0
  show ?case by simp
next
  case (Suc m)
  obtain s pos acts where x: "x = (s, pos, acts)" by (cases x)
  show ?case using Suc by (simp add: x split: prod.splits)
qed

lemma next_turn_past_end:
  "r \<le> rounds s \<Longrightarrow> next_turn s r PRO (length (pro s)) = next_turn s r KONTRA 0"
  "r \<le> rounds s \<Longrightarrow> next_turn s r KONTRA (length (kontra s)) = next_turn s (r + 1) PRO 0"
  by (subst next_turn.simps, simp add: lineup_def)+

lemma at_loop_past_end:
  "r \<le> rounds s \<Longrightarrow> at_loop s r PRO (length (pro s)) acts = at_loop s r KONTRA 0 acts"
  "r \<le> rounds s \<Longrightarrow> at_loop s r KONTRA (length (kontra s)) acts = at_loop s (r + 1) PRO 0 acts"
  by (simp_all add: at_loop_def enter_turn_def next_turn_past_end)

lemma at_loop_turn:
  assumes "running s" "r \<le> rounds s" "i < length (lineup s sd)"
  shows "run_alone 2 (at_loop s r sd i acts)
         = at_loop s r sd (Suc i) (acts @ side_turns s r sd [lineup s sd ! i])"
proof -
  have "next_turn s r sd i = Some (r, sd, i)"
    using assms by (subst next_turn.simps) simp
  then have "at_loop s r sd i acts
     = (s, AwaitTurn r sd i, acts @ [TurnNotice r (rounds s) sd (lineup s sd ! i) (turn_seconds s)])"
    using assms by (simp add: at_loop_def enter_turn_def)
  then show ?thesis
    by (simp add: numeral_2_eq_2 at_loop_def side_turns_def split: prod.splits)
qed

lemma at_loop_side:
  assumes "running s" "r \<le> rounds s"
  shows "i \<le> length (lineup s sd) \<Longrightarrow>
     \<exists>n. run_alone n (at_loop s r sd i acts)
         = at_loop s r sd (length (lineup s sd)) (acts @ side_turns s r sd (drop i (lineup s sd)))"
proof (induction "length (lineup s sd) - i" arbitrary: i acts)
  case 0
  then have "i = length (lineup s sd)" by simp
  then have "run_alone 0 (at_loop s r sd i acts)
         = at_loop s r sd (length (lineup s sd)) (acts @ side_turns s r sd (drop i (lineup s sd)))"
    by (simp add: side_turns_def)
  then show ?case by blast
next
  case (Suc k)
  then have i: "i < length (lineup s sd)" by simp
  have k: "k = length (lineup s sd) - Suc i" using Suc(2) by simp
  have le: "Suc i \<le> length (lineup s sd)" using i by simp
  from Suc(1) [OF k le, of "acts @ side_turns s r sd [lineup s sd ! i]"]
  obtain n where n: "run_alone n (at_loop s r sd (Suc i) (acts @ side_turns s r sd [lineup s sd ! i]))
     = at_loop s r sd (length (lineup s sd))
        ((acts @ side_turns s r sd [lineup s sd ! i]) @ side_turns s r sd (drop (Suc i) (lineup s sd)))"
    by blast
  have d: "drop i (lineup s sd) = lineup s sd ! i # drop (Suc i) (lineup s sd)"
    using i by (simp add: Cons_nth_drop_Suc)
  have "run_alone (2 + n) (at_loop s r sd i acts)
     = at_loop s r sd (length (lineup s sd)) (acts @ side_turns s r sd (drop i (lineup s sd)))"
    unfolding run_alone_add at_loop_turn [OF assms i] n d
    by (simp add: side_turns_def)
  then show ?case by blast
qed

lemma at_loop_round:
  assumes "running s" "r \<le> rounds s"
  shows "\<exists>n. run_alone n (at_loop s r PRO 0 acts) = at_loop s (r + 1) PRO 0 (acts @ round_turns s r)"
proof -
  obtain n1 where n1: "run_alone n1 (at_loop s r PRO 0 acts)
      = at_loop s r PRO (length (pro s)) (acts @ side_turns s r PRO (pro s))"
    using at_loop_side [OF assms, of 0 PRO acts] by (auto simp: lineup_def)
  obtain n2 where n2: "run_alone n2 (at_loop s r KONTRA 0 (acts @ side_turns s r PRO (pro s)))
      = at_loop s r KONTRA (length (kontra s)) ((acts @ side_turns s r PRO (pro s)) @ side_turns s r KONTRA (kontra s))"
    using at_loop_side [OF assms, of 0 KONTRA "acts @ side_turns s r PRO (pro s)"] by (auto simp: lineup_def)
  have "run_alone (n1 + n2) (at_loop s r PRO 0 acts) = at_loop s (r + 1) PRO 0 (acts @ round_turns s r)"
    unfolding run_alone_add n1 at_loop_past_end(1) [OF assms(2)] n2 at_loop_past_end(2) [OF assms(2)]
    by (simp add: round_turns_def)
  then show ?thesis by blast
qed

lemma at_loop_rounds:
  assumes "running s"
  shows "r \<le> rounds s + 1 \<Longrightarrow>
     \<exists>n. run_alone n (at_loop s r PRO 0 acts)
        = at_loop s (rounds s + 1) PRO 0 (acts @ concat (map (round_turns s) [r..rounds s]))"
proof (induction "nat (rounds s + 1 - r)" arbitrary: r acts)
  case 0
  then have "r = rounds s + 1" by simp
  then have "run_alone 0 (at_loop s r PRO 0 acts)
        = at_loop s (rounds s + 1) PRO 0 (acts @ concat (map (round_turns s) [r..rounds s]))"
    by simp
  then show ?case by blast
next
  case (Suc k)
  then have r: "r \<le> rounds s" by simp
  obtain n1 where n1: "run_alone n1 (at_loop s r PRO 0 acts) = at_loop s (r + 1) PRO 0 (acts @ round_turns s r)"
    using at_loop_round [OF assms r] by blast
  have k: "k = nat (rounds s + 1 - (r + 1))" using Suc(2) by simp
  have le: "r + 1 \<le> rounds s + 1" using r by simp
  obtain n2 where n2: "run_alone n2 (at_loop s (r + 1) PRO 0 (acts @ round_turns s r))
        = at_loop s (rounds s + 1) PRO 0 ((acts @ round_turns s r) @ concat (map (round_turns s) [r + 1..rounds s]))"
    using Suc(1) [OF k le] by blast
  have u: "[r..rounds s] = r # [r + 1..rounds s]"
    using r by (simp add: upto_rec1)
  have "run_alone (n1 + n2) (at_loop s r PRO 0 acts)
        = at_loop s (rounds s + 1) PRO 0 (acts @ concat (map (round_turns s) [r..rounds s]))"
    unfolding run_alone_add n1 n2 u by simp
  then show ?case by blast
qed


lemma round_turns_running: "round_turns (s\<lparr>running := b\<rparr>) = round_turns s"
  by (rule ext) (simp add: round_turns_def side_turns_def)

lemma all_turns_running [simp]: "all_turns (s\<lparr>running := b\<rparr>) = all_turns s"
  by (simp add: all_turns_def round_turns_running)

lemma count_side_turns: "length (filter is_turn (side_turns s r sd us)) = length us"
  by (induction us) (simp_all add: side_turns_def)

lemma count_round_turns:
  "length (filter is_turn (round_turns s r)) = length (pro s) + length (kontra s)"
  by (simp add: round_turns_def count_side_turns)

lemma count_rounds:
  "length (filter is_turn (concat (map (round_turns s) rs)))
     = length rs * (length (pro s) + length (kontra s))"
  by (induction rs) (simp_all add: count_round_turns)


lemma run_alone_turns:
  "(\<exists>n. run_alone n (s, NotStarted, [])
         = (s\<lparr>running := False\<rparr>, Done,
            Announce (topic s) (turn_seconds s) # all_turns s
            @ [Summary (length (filter (\<lambda>(u, p). p = PRO) (debate_points s)))
                       (length (filter (\<lambda>(u, p). p = KONTRA) (debate_points s)))]))
   \<and> length (filter is_turn (all_turns s))
       = nat (rounds s) * (length (pro s) + length (kontra s))"
proof -
  define s1 where "s1 = s\<lparr>running := True\<rparr>"
  define a1 where "a1 = [Announce (topic s) (turn_seconds s)]"
  have r: "running s1" by (simp add: s1_def)
  have 1: "run_alone 2 (s, NotStarted, []) = at_loop s1 1 PRO 0 a1"
    by (simp add: numeral_2_eq_2 at_loop_def s1_def a1_def split: prod.splits)
  have le: "1 \<le> rounds s1 + 1 \<or> rounds s1 < 0" by linarith
  obtain n where n: "run_alone n (at_loop s1 1 PRO 0 a1)
      = at_loop s1 (rounds s1 + 1) PRO 0 (a1 @ all_turns s1)"
  proof (cases "1 \<le> rounds s1 + 1")
    case True
    then show ?thesis
      using at_loop_rounds [OF r True, of a1] that by (auto simp: all_turns_def)
  next
    case False
    then have "next_turn s1 1 PRO 0 = None" "next_turn s1 (rounds s1 + 1) PRO 0 = None"
      by (subst next_turn.simps, simp)+
    then have "run_alone 0 (at_loop s1 1 PRO 0 a1)
      = at_loop s1 (rounds s1 + 1) PRO 0 (a1 @ all_turns s1)"
      using False by (simp add: at_loop_def enter_turn_def all_turns_def)
    then show ?thesis using that by blast
  qed
  have "next_turn s1 (rounds s1 + 1) PRO 0 = None"
    by (subst next_turn.simps) simp
  then have 3: "run_alone 1 (at_loop s1 (rounds s1 + 1) PRO 0 (a1 @ all_turns s1))
      = (s\<lparr>running := False\<rparr>, Done,
            Announce (topic s) (turn_seconds s) # all_turns s
            @ [Summary (length (filter (\<lambda>(u, p). p = PRO) (debate_points s)))
                       (length (filter (\<lambda>(u, p). p = KONTRA) (debate_points s)))])"
    by (simp add: at_loop_def enter_turn_def s1_def a1_def)
  have "run_alone (2 + n + 1) (s, NotStarted, [])
      = (s\<lparr>running := False\<rparr>, Done,
            Announce (topic s) (turn_seconds s) # all_turns s
            @ [Summary (length (filter (\<lambda>(u, p). p = PRO) (debate_points s)))
                       (length (filter (\<lambda>(u, p). p = KONTRA) (debate_points s)))])"
    unfolding run_alone_add 1 n 3 ..
  moreover have "length (filter is_turn (all_turns s))
       = nat (rounds s) * (length (pro s) + length (kontra s))"
    by (simp add: all_turns_def count_rounds)
  ultimately show ?thesis by blast
qed


lemma resume_alone:
  assumes "t < length (tasks st)" "ref < length (heap st)"
    and "session_ref (tasks st ! t) = ref" "\<not> cancel_requested (tasks st ! t)"
    and "position (tasks st ! t) \<noteq> Done"
    and "runner_step True (heap st ! ref) (position (tasks st ! t)) = (s', pos', new)"
  shows "resume st t True
    = st\<lparr>heap := (heap st)[ref := s'],
         tasks := (tasks st)[t := (tasks st ! t)\<lparr>position := pos'\<rparr>],
         sent := sent st @ map (Pair t) new\<rparr>"
  using assms by (simp add: resume_def Let_def)

lemma resume_done:
  assumes "t < length (tasks st)" "position (tasks st ! t) = Done"
  shows "resume st t True = st"
  using assms by (simp add: resume_def Let_def)

lemma run_alone_acts_eq:
  "run_alone n (s, pos, acts)
     = (case run_alone n (s, pos, []) of (s', pos', new) \<Rightarrow> (s', pos', acts @ new))"
proof (induction n arbitrary: s pos acts)
  case 0
  show ?case by simp
next
  case (Suc n)
  obtain s1 p1 new1 where rs: "runner_step True s pos = (s1, p1, new1)"
    by (cases "runner_step True s pos")
  obtain s2 p2 new2 where r2: "run_alone n (s1, p1, []) = (s2, p2, new2)"
    by (cases "run_alone n (s1, p1, [])")
  have 1: "run_alone n (s1, p1, acts @ new1) = (s2, p2, (acts @ new1) @ new2)"
    using Suc.IH [of s1 p1 "acts @ new1"] r2 by simp
  have 2: "run_alone n (s1, p1, new1) = (s2, p2, new1 @ new2)"
    using Suc.IH [of s1 p1 new1] r2 by simp
  show ?case
    using rs 1 2 by simp
qed

lemma run_alone_acts:
  assumes "run_alone n (s, pos, acts) = (s', pos', acts')"
  shows "\<exists>new. acts' = acts @ new \<and> run_alone n (s, pos, []) = (s', pos', new)"
  using assms run_alone_acts_eq [of n s pos acts]
  by (cases "run_alone n (s, pos, [])") auto

lemma resumes_run_alone:
  assumes "t < length (tasks st)" "ref < length (heap st)"
    and "session_ref (tasks st ! t) = ref" "\<not> cancel_requested (tasks st ! t)"
    and "run_alone n (heap st ! ref, position (tasks st ! t), []) = (s', pos', new)"
  shows "foldl step st (replicate n (Resume t True))
      = st\<lparr>heap := (heap st)[ref := s'],
           tasks := (tasks st)[t := (tasks st ! t)\<lparr>position := pos'\<rparr>],
           sent := sent st @ map (Pair t) new\<rparr>"
  using assms
proof (induction n arbitrary: st new)
  case 0
  then have e: "s' = heap st ! ref" "pos' = position (tasks st ! t)" "new = []"
    by simp_all
  show ?case unfolding e by simp
next
  case (Suc n)
  obtain s1 p1 new1 where rs: "runner_step True (heap st ! ref) (position (tasks st ! t)) = (s1, p1, new1)"
    by (cases "runner_step True (heap st ! ref) (position (tasks st ! t))")
  have "run_alone n (s1, p1, [] @ new1) = (s', pos', new)"
    using Suc.prems(5) rs by simp
  then obtain new2 where n2: "new = new1 @ new2" "run_alone n (s1, p1, []) = (s', pos', new2)"
    using run_alone_acts [of n s1 p1 new1 s' pos' new] by auto
  show ?case
  proof (cases "position (tasks st ! t) = Done")
    case True
    then have e: "s1 = heap st ! ref" "p1 = Done" "new1 = []"
      using rs by simp_all
    have st1: "resume st t True = st"
      using Suc.prems(1) True by (rule resume_done)
    have "run_alone n (heap st ! ref, position (tasks st ! t), []) = (s', pos', new)"
      using n2 e True by simp
    from Suc.IH [OF Suc.prems(1-4) this] show ?thesis
      by (simp add: st1)
  next
    case False
    define st1 where "st1 = resume st t True"
    have st1: "st1 = st\<lparr>heap := (heap st)[ref := s1],
         tasks := (tasks st)[t := (tasks st ! t)\<lparr>position := p1\<rparr>],
         sent := sent st @ map (Pair t) new1\<rparr>"
      unfolding st1_def using Suc.prems(1-4) False rs by (rule resume_alone)
    have a: "t < length (tasks st1)" "ref < length (heap st1)"
      "session_ref (tasks st1 ! t) = ref" "\<not> cancel_requested (tasks st1 ! t)"
      using Suc.prems(1-4) by (simp_all add: st1)
    have b: "run_alone n (heap st1 ! ref, position (tasks st1 ! t), []) = (s', pos', new2)"
      using n2(2) Suc.prems(1,2) by (simp add: st1)
    have "foldl step st (replicate (Suc n) (Resume t True))
            = foldl step st1 (replicate n (Resume t True))"
      by (simp add: st1_def)
    also have "\<dots> = st1\<lparr>heap := (heap st1)[ref := s'],
           tasks := (tasks st1)[t := (tasks st1 ! t)\<lparr>position := pos'\<rparr>],
           sent := sent st1 @ map (Pair t) new2\<rparr>"
      using a b by (rule Suc.IH)
    also have "\<dots> = st\<lparr>heap := (heap st)[ref := s'],
           tasks := (tasks st)[t := (tasks st ! t)\<lparr>position := pos'\<rparr>],
           sent := sent st @ map (Pair t) new\<rparr>"
      using Suc.prems(1) by (simp add: st1 n2(1))
    finally show ?thesis .
  qed
qed

text \<open>
  C7. A runner that has not started and is not cancelled, resumed again and again with
  nothing else happening, returns after finitely many resumptions, with the running flag
  cleared. What it has done by then is: the opening message, then for each round from 1
  to \<^verbatim>\<open>rounds\<close> one notification for every user of PRO in list order, then one for every
  user of KONTRA in list order, each notification followed by a sleep of \<^verbatim>\<open>turn_seconds\<close>,
  then the closing message. The number of notifications is \<^verbatim>\<open>rounds\<close> times the number of
  users of both sides (\<^verbatim>\<open>debat_mulai\<close> admits \<^verbatim>\<open>rounds\<close> of 1 or more only).
\<close>

theorem debate_runner_turns:
  assumes "t < length (tasks st)" and "session_ref (tasks st ! t) < length (heap st)"
    and "position (tasks st ! t) = NotStarted" and "\<not> cancel_requested (tasks st ! t)"
    and "s = heap st ! session_ref (tasks st ! t)"
  shows "(\<exists>n. position (tasks (foldl step st (replicate n (Resume t True))) ! t) = Done
            \<and> \<not> running (heap (foldl step st (replicate n (Resume t True))) ! session_ref (tasks st ! t))
            \<and> sent (foldl step st (replicate n (Resume t True)))
                = sent st @ map (Pair t)
                    (Announce (topic s) (turn_seconds s) # all_turns s
                     @ [Summary (length (filter (\<lambda>(u, p). p = PRO) (debate_points s)))
                                (length (filter (\<lambda>(u, p). p = KONTRA) (debate_points s)))]))
       \<and> length (filter is_turn (all_turns s))
           = nat (rounds s) * (length (pro s) + length (kontra s))
       \<and> all_turns s
           = concat (map (\<lambda>r. concat (map (\<lambda>u. [TurnNotice r (rounds s) PRO u (turn_seconds s),
                                                  Sleep (turn_seconds s)]) (pro s))
                              @ concat (map (\<lambda>u. [TurnNotice r (rounds s) KONTRA u (turn_seconds s),
                                                    Sleep (turn_seconds s)]) (kontra s)))
                         [1..rounds s])"
proof -
  from run_alone_turns [of s] obtain n where
    n: "run_alone n (s, NotStarted, [])
         = (s\<lparr>running := False\<rparr>, Done,
            Announce (topic s) (turn_seconds s) # all_turns s
            @ [Summary (length (filter (\<lambda>(u, p). p = PRO) (debate_points s)))
                       (length (filter (\<lambda>(u, p). p = KONTRA) (debate_points s)))])"
    and c: "length (filter is_turn (all_turns s))
           = nat (rounds s) * (length (pro s) + length (kontra s))"
    by blast
  have "run_alone n (heap st ! session_ref (tasks st ! t), position (tasks st ! t), [])
         = (s\<lparr>running := False\<rparr>, Done,
            Announce (topic s) (turn_seconds s) # all_turns s
            @ [Summary (length (filter (\<lambda>(u, p). p = PRO) (debate_points s)))
                       (length (filter (\<lambda>(u, p). p = KONTRA) (debate_points s)))])"
    using n assms(3,5) by simp
  note r = resumes_run_alone [OF assms(1,2) refl assms(4) this]
  have "position (tasks (foldl step st (replicate n (Resume t True))) ! t) = Done
            \<and> \<not> running (heap (foldl step st (replicate n (Resume t True))) ! session_ref (tasks st ! t))
            \<and> sent (foldl step st (replicate n (Resume t True)))
                = sent st @ map (Pair t)
                    (Announce (topic s) (turn_seconds s) # all_turns s
                     @ [Summary (length (filter (\<lambda>(u, p). p = PRO) (debate_points s)))
                                (length (filter (\<lambda>(u, p). p = KONTRA) (debate_points s)))])"
    unfolding r using assms(1,2) by simp
  moreover have "all_turns s
           = concat (map (\<lambda>r. concat (map (\<lambda>u. [TurnNotice r (rounds s) PRO u (turn_seconds s),
                                                  Sleep (turn_seconds s)]) (pro s))
                              @ concat (map (\<lambda>u. [TurnNotice r (rounds s) KONTRA u (turn_seconds s),
                                                    Sleep (turn_seconds s)]) (kontra s)))
                         [1..rounds s])"
  proof -
    have "round_turns s = (\<lambda>r. concat (map (\<lambda>u. [TurnNotice r (rounds s) PRO u (turn_seconds s),
                                                  Sleep (turn_seconds s)]) (pro s))
                              @ concat (map (\<lambda>u. [TurnNotice r (rounds s) KONTRA u (turn_seconds s),
                                                    Sleep (turn_seconds s)]) (kontra s)))"
      by (rule ext) (simp add: round_turns_def side_turns_def)
    then show ?thesis by (simp add: all_turns_def)
  qed
  ultimately show ?thesis using c by blast
qed

lemma debate_example_session: "heap (exec debate_example) ! session_ref (tasks (exec debate_example) ! 0)
   = \<lparr>guild_id = 1, channel_id = 5, topic = ''topik'', turn_seconds = 10, rounds = 2,
      pro = [1, 2], kontra = [3], debate_points = [], running = False\<rparr>"
  by code_simp

lemma debate_example_task: "0 < length (tasks (exec debate_example))"
  "session_ref (tasks (exec debate_example) ! 0) < length (heap (exec debate_example))"
  "position (tasks (exec debate_example) ! 0) = NotStarted"
  "\<not> cancel_requested (tasks (exec debate_example) ! 0)"
  by code_simp+

lemma debate_example_turns: "all_turns \<lparr>guild_id = 1, channel_id = 5, topic = ''topik'', turn_seconds = 10, rounds = 2,
      pro = [1, 2], kontra = [3], debate_points = [], running = False\<rparr>
   = [TurnNotice 1 2 PRO 1 10, Sleep 10, TurnNotice 1 2 PRO 2 10, Sleep 10,
      TurnNotice 1 2 KONTRA 3 10, Sleep 10, TurnNotice 2 2 PRO 1 10, Sleep 10,
      TurnNotice 2 2 PRO 2 10, Sleep 10, TurnNotice 2 2 KONTRA 3 10, Sleep 10]"
  by code_simp

lemma debate_example_sent: "sent (exec debate_example) = []"
  by code_simp

text \<open>
  The example of the specification: 2 rounds, PRO 1 and 2, KONTRA 3 give the six turns
  1, 2, 3, 1, 2, 3.
\<close>

theorem debate_runner_turns_witness:
  "0 < length (tasks (exec debate_example))
   \<and> position (tasks (exec debate_example) ! 0) = NotStarted
   \<and> \<not> cancel_requested (tasks (exec debate_example) ! 0)
   \<and> (\<exists>n. position (tasks (foldl step (exec debate_example) (replicate n (Resume 0 True))) ! 0) = Done
          \<and> sent (foldl step (exec debate_example) (replicate n (Resume 0 True)))
           = map (Pair 0)
              [Announce ''topik'' 10,
               TurnNotice 1 2 PRO 1 10, Sleep 10, TurnNotice 1 2 PRO 2 10, Sleep 10,
               TurnNotice 1 2 KONTRA 3 10, Sleep 10, TurnNotice 2 2 PRO 1 10, Sleep 10,
               TurnNotice 2 2 PRO 2 10, Sleep 10, TurnNotice 2 2 KONTRA 3 10, Sleep 10,
               Summary 0 0])"
  using debate_runner_turns [OF debate_example_task debate_example_session [symmetric]] debate_example_task
  by (auto simp: debate_example_turns debate_example_sent)



subsection \<open>Runners and commands\<close>

lemma runner_step_channel: "runner_step found s pos = (s', pos', new) \<Longrightarrow> channel_id s' = channel_id s"
  by (cases pos) (auto simp: enter_turn_def Let_def split: option.splits if_splits)

lemma length_cancel_task [simp]: "length (cancel_task ts t) = length ts"
  by (simp add: cancel_task_def)

lemma length_cancel_task_of [simp]: "length (cancel_task_of st c) = length (tasks st)"
  by (simp add: cancel_task_of_def split: option.splits)

lemma session_ref_cancel_task [simp]:
  "session_ref (cancel_task ts t ! u) = session_ref (ts ! u)"
  by (simp add: cancel_task_def nth_list_update)

lemma session_ref_cancel_task_of [simp]:
  "session_ref (cancel_task_of st c ! u) = session_ref (tasks st ! u)"
  by (simp add: cancel_task_of_def split: option.splits)

lemma position_cancel_task [simp]:
  "position (cancel_task ts t ! u) = position (ts ! u)"
  by (simp add: cancel_task_def nth_list_update)

lemma position_cancel_task_of [simp]:
  "position (cancel_task_of st c ! u) = position (tasks st ! u)"
  by (simp add: cancel_task_of_def split: option.splits)

lemma cancel_requested_cancel_task:
  "u < length ts \<Longrightarrow> cancel_requested (cancel_task ts t ! u)
     = (cancel_requested (ts ! u) \<or> (u = t \<and> position (ts ! u) \<noteq> Done))"
  by (auto simp: cancel_task_def nth_list_update)

lemma cancel_requested_cancel_task_of:
  "u < length (tasks st) \<Longrightarrow> cancel_requested (cancel_task_of st c ! u)
     = (cancel_requested (tasks st ! u) \<or> (debate_tasks st c = Some u \<and> position (tasks st ! u) \<noteq> Done))"
  by (auto simp: cancel_task_of_def cancel_requested_cancel_task split: option.splits)

text \<open>What no step changes: the channel of a session object, the session of a task.\<close>

lemma step_heap:
  "length (heap st) \<le> length (heap (step st e))
   \<and> (\<forall>ref<length (heap st). channel_id (heap (step st e) ! ref) = channel_id (heap st ! ref))"
proof (cases e)
  case (Mulai c guild secs rnds tp)
  then show ?thesis by (simp add: debat_mulai_def say_def nth_append)
next
  case (Join c uid side_text)
  then show ?thesis
    by (auto simp: debat_join_def say_def get_session_def Let_def nth_list_update
        split: option.splits if_splits)
next
  case (Start c)
  then show ?thesis
    by (auto simp: debat_start_def say_def get_session_def Let_def split: option.splits if_splits)
next
  case (Poin c uid)
  then show ?thesis
    by (auto simp: debat_poin_def say_def get_session_def nth_list_update split: option.splits if_splits)
next
  case (Stop c)
  then show ?thesis
    by (auto simp: debat_stop_def say_def get_session_def nth_list_update split: option.splits if_splits)
next
  case (Resume t found)
  then show ?thesis
    by (auto simp: resume_def Let_def nth_list_update dest: runner_step_channel
        split: prod.splits if_splits)
qed

lemma step_tasks:
  "length (tasks st) \<le> length (tasks (step st e))
   \<and> (\<forall>t<length (tasks st). session_ref (tasks (step st e) ! t) = session_ref (tasks st ! t))"
proof (cases e)
  case (Mulai c guild secs rnds tp)
  then show ?thesis by (simp add: debat_mulai_def say_def)
next
  case (Join c uid side_text)
  then show ?thesis
    by (auto simp: debat_join_def say_def get_session_def Let_def
        split: option.splits if_splits)
next
  case (Start c)
  then show ?thesis
    by (auto simp: debat_start_def say_def get_session_def Let_def nth_append
        split: option.splits if_splits)
next
  case (Poin c uid)
  then show ?thesis
    by (auto simp: debat_poin_def say_def get_session_def split: option.splits if_splits)
next
  case (Stop c)
  then show ?thesis
    by (auto simp: debat_stop_def say_def get_session_def split: option.splits if_splits)
next
  case (Resume t found)
  then show ?thesis
    by (auto simp: resume_def Let_def nth_list_update split: prod.splits if_splits)
qed

lemma step_not_alive:
  assumes "t < length (tasks st)" "\<not> alive st t"
  shows "\<not> alive (step st e) t"
proof (cases e)
  case (Mulai c guild secs rnds tp)
  then show ?thesis using assms by (simp add: debat_mulai_def say_def alive_def)
next
  case (Join c uid side_text)
  then show ?thesis using assms
    by (auto simp: debat_join_def say_def get_session_def Let_def alive_def
        split: option.splits if_splits)
next
  case (Start c)
  then show ?thesis using assms
    by (auto simp: debat_start_def say_def get_session_def Let_def nth_append alive_def
        cancel_requested_cancel_task_of split: option.splits if_splits)
next
  case (Poin c uid)
  then show ?thesis using assms
    by (auto simp: debat_poin_def say_def get_session_def alive_def split: option.splits if_splits)
next
  case (Stop c)
  then show ?thesis using assms
    by (auto simp: debat_stop_def say_def get_session_def alive_def
        cancel_requested_cancel_task_of split: option.splits if_splits)
next
  case (Resume t' found)
  then show ?thesis using assms
    by (auto simp: resume_def Let_def nth_list_update alive_def split: prod.splits if_splits)
qed

lemma step_sent_by:
  assumes "\<not> alive st t"
  shows "sent_by (step st e) t = sent_by st t"
proof (cases e)
  case (Mulai c guild secs rnds tp)
  then show ?thesis by (simp add: debat_mulai_def say_def sent_by_def)
next
  case (Join c uid side_text)
  then show ?thesis
    by (auto simp: debat_join_def say_def get_session_def Let_def sent_by_def
        split: option.splits if_splits)
next
  case (Start c)
  then show ?thesis
    by (auto simp: debat_start_def say_def get_session_def Let_def sent_by_def
        split: option.splits if_splits)
next
  case (Poin c uid)
  then show ?thesis
    by (auto simp: debat_poin_def say_def get_session_def sent_by_def split: option.splits if_splits)
next
  case (Stop c)
  then show ?thesis
    by (auto simp: debat_stop_def say_def get_session_def sent_by_def split: option.splits if_splits)
next
  case (Resume t' found)
  have f: "filter (\<lambda>(u, a). u = t) (map (Pair t') new) = []" if "t' \<noteq> t" for new :: "action list"
    using that by (induction new) simp_all
  show ?thesis
  proof (cases "t' = t")
    case True
    then show ?thesis using assms Resume
      by (auto simp: resume_def Let_def alive_def sent_by_def split: prod.splits)
  next
    case False
    then show ?thesis using Resume f
      by (auto simp: resume_def Let_def sent_by_def split: prod.splits)
  qed
qed


lemma consistent_initial: "consistent initial"
  by (simp add: consistent_def initial_def alive_def)

lemma consistent_mulai:
  assumes "consistent st"
  shows "consistent (debat_mulai st c guild secs rnds tp)"
proof (cases "secs < 10 \<or> rnds < 1")
  case True
  then show ?thesis using assms
    by (simp add: debat_mulai_def say_def consistent_def alive_def task_channel_def)
next
  case False
  have a: "\<forall>c ref. debate_sessions st c = Some ref \<longrightarrow>
          ref < length (heap st) \<and> channel_id (heap st ! ref) = c"
    and b: "\<forall>t<length (tasks st). session_ref (tasks st ! t) < length (heap st)"
    and d: "\<forall>t. alive st t \<longrightarrow> debate_tasks st (task_channel st t) = Some t"
    using assms by (simp_all add: consistent_def)
  show ?thesis
    unfolding consistent_def
  proof (intro conjI allI impI)
    fix c' ref assume "debate_sessions (debat_mulai st c guild secs rnds tp) c' = Some ref"
    then show "ref < length (heap (debat_mulai st c guild secs rnds tp))"
      "channel_id (heap (debat_mulai st c guild secs rnds tp) ! ref) = c'"
      using False a [rule_format, of c' ref]
      by (auto simp: debat_mulai_def say_def nth_append split: if_splits)
  next
    fix t assume "t < length (tasks (debat_mulai st c guild secs rnds tp))"
    then show "session_ref (tasks (debat_mulai st c guild secs rnds tp) ! t)
                 < length (heap (debat_mulai st c guild secs rnds tp))"
      using False b by (auto simp: debat_mulai_def say_def less_Suc_eq)
  next
    fix t assume al: "alive (debat_mulai st c guild secs rnds tp) t"
    then have t: "alive st t"
      using False by (simp add: debat_mulai_def say_def alive_def)
    then have "session_ref (tasks st ! t) < length (heap st)"
      using b by (simp add: alive_def)
    then have "task_channel (debat_mulai st c guild secs rnds tp) t = task_channel st t"
      using False by (simp add: debat_mulai_def say_def task_channel_def nth_append)
    then show "debate_tasks (debat_mulai st c guild secs rnds tp)
                 (task_channel (debat_mulai st c guild secs rnds tp) t) = Some t"
      using d t False by (simp add: debat_mulai_def say_def)
  qed
qed

text \<open>A command that changes fields of one session other than its channel.\<close>
lemma consistent_heap_update:
  assumes "consistent st" "ref < length (heap st)" "channel_id s' = channel_id (heap st ! ref)"
  shows "consistent (st\<lparr>heap := (heap st)[ref := s']\<rparr>)"
  using assms
  by (auto simp: consistent_def alive_def task_channel_def nth_list_update)

lemma consistent_say [simp]: "consistent (say st c r) = consistent st"
  by (simp add: consistent_def say_def alive_def task_channel_def)

lemma get_session_SomeD:
  "get_session st c = Some (ref, s) \<Longrightarrow>
     debate_sessions st c = Some ref \<and> ref < length (heap st) \<and> s = heap st ! ref"
  by (auto simp: get_session_def split: option.splits if_splits)

lemma consistent_join:
  assumes "consistent st"
  shows "consistent (debat_join st c uid side_text)"
proof (cases "get_session st c")
  case None
  then show ?thesis using assms by (simp add: debat_join_def)
next
  case (Some p)
  obtain ref s where p: "p = (ref, s)" by (cases p)
  note g = get_session_SomeD [OF Some [unfolded p]]
  show ?thesis
    using assms g Some p
    by (auto simp: debat_join_def Let_def intro!: consistent_heap_update)
qed

lemma consistent_poin:
  assumes "consistent st"
  shows "consistent (debat_poin st c uid)"
proof (cases "get_session st c")
  case None
  then show ?thesis using assms by (simp add: debat_poin_def)
next
  case (Some p)
  obtain ref s where p: "p = (ref, s)" by (cases p)
  note g = get_session_SomeD [OF Some [unfolded p]]
  show ?thesis
    using assms g Some p
    by (auto simp: debat_poin_def Let_def split: option.splits intro!: consistent_heap_update)
qed


lemma consistent_frame:
  assumes "consistent st"
    and "length (heap st') = length (heap st)"
    and "\<forall>r<length (heap st). channel_id (heap st' ! r) = channel_id (heap st ! r)"
    and "\<forall>c r. debate_sessions st' c = Some r \<longrightarrow> debate_sessions st c = Some r"
    and "length (tasks st') = length (tasks st)"
    and "\<forall>t<length (tasks st). session_ref (tasks st' ! t) = session_ref (tasks st ! t)"
    and "\<forall>t. alive st' t \<longrightarrow> alive st t"
    and "debate_tasks st' = debate_tasks st"
  shows "consistent st'"
  unfolding consistent_def
proof (intro conjI allI impI)
  fix c r assume "debate_sessions st' c = Some r"
  then have "debate_sessions st c = Some r" using assms(4) by blast
  then have "r < length (heap st)" "channel_id (heap st ! r) = c"
    using assms(1) by (auto simp: consistent_def)
  then show "r < length (heap st')" "channel_id (heap st' ! r) = c"
    using assms(2,3) by auto
next
  fix t assume "t < length (tasks st')"
  then have t: "t < length (tasks st)" using assms(5) by simp
  then have "session_ref (tasks st ! t) < length (heap st)"
    using assms(1) by (auto simp: consistent_def)
  then show "session_ref (tasks st' ! t) < length (heap st')"
    using assms(2,6) t by auto
next
  fix t assume "alive st' t"
  then have a: "alive st t" using assms(7) by blast
  then have t: "t < length (tasks st)" by (simp add: alive_def)
  then have r: "session_ref (tasks st ! t) < length (heap st)"
    using assms(1) by (auto simp: consistent_def)
  have "task_channel st' t = task_channel st t"
    using assms(3,6) t r by (simp add: task_channel_def)
  moreover have "debate_tasks st (task_channel st t) = Some t"
    using assms(1) a by (auto simp: consistent_def)
  ultimately show "debate_tasks st' (task_channel st' t) = Some t"
    using assms(8) by simp
qed

lemma consistent_stop:
  assumes "consistent st"
  shows "consistent (debat_stop st c)"
proof (cases "get_session st c")
  case None
  then show ?thesis using assms by (simp add: debat_stop_def)
next
  case (Some p)
  obtain ref s where p: "p = (ref, s)" by (cases p)
  note g = get_session_SomeD [OF Some [unfolded p]]
  have e: "debat_stop st c = say (st\<lparr>heap := (heap st)[ref := s\<lparr>running := False\<rparr>],
                 tasks := cancel_task_of st c,
                 debate_sessions := (debate_sessions st)(c := None)\<rparr>) c Stopped"
    using Some p by (simp add: debat_stop_def)
  show ?thesis
    unfolding e consistent_say
    using assms
  proof (rule consistent_frame)
    show "\<forall>t. alive (st\<lparr>heap := (heap st)[ref := s\<lparr>running := False\<rparr>],
                 tasks := cancel_task_of st c,
                 debate_sessions := (debate_sessions st)(c := None)\<rparr>) t \<longrightarrow> alive st t"
      by (auto simp: alive_def cancel_requested_cancel_task_of)
  qed (use g in \<open>auto simp: nth_list_update\<close>)
qed

lemma consistent_resume:
  assumes "consistent st"
  shows "consistent (resume st t found)"
  using assms
proof (rule consistent_frame)
  show "\<forall>u. alive (resume st t found) u \<longrightarrow> alive st u"
    by (auto simp: resume_def Let_def alive_def nth_list_update split: prod.splits if_splits)
  show "\<forall>r<length (heap st). channel_id (heap (resume st t found) ! r) = channel_id (heap st ! r)"
    using step_heap [of st "Resume t found"] by simp
  show "\<forall>u<length (tasks st). session_ref (tasks (resume st t found) ! u) = session_ref (tasks st ! u)"
    using step_tasks [of st "Resume t found"] by simp
qed (auto simp: resume_def Let_def split: prod.splits)

lemma consistent_start:
  assumes "consistent st"
  shows "consistent (debat_start st c)"
proof (cases "get_session st c")
  case None
  then show ?thesis using assms by (simp add: debat_start_def)
next
  case (Some p)
  obtain ref s where p: "p = (ref, s)" by (cases p)
  note g = get_session_SomeD [OF Some [unfolded p]]
  show ?thesis
  proof (cases "running s \<or> pro s = [] \<or> kontra s = []")
    case True
    then show ?thesis using assms Some p by (auto simp: debat_start_def)
  next
    case False
    define st' where "st' = st\<lparr>tasks := cancel_task_of st c @ [\<lparr>session_ref = ref, position = NotStarted,
                                            cancel_requested = False\<rparr>],
                            debate_tasks := (debate_tasks st)(c \<mapsto> length (tasks st))\<rparr>"
    have e: "debat_start st c = say st' c TimerStarted"
      using Some p False by (simp add: debat_start_def st'_def Let_def)
    have a: "\<forall>c ref. debate_sessions st c = Some ref \<longrightarrow>
          ref < length (heap st) \<and> channel_id (heap st ! ref) = c"
      and b: "\<forall>t<length (tasks st). session_ref (tasks st ! t) < length (heap st)"
      and d: "\<forall>t. alive st t \<longrightarrow> debate_tasks st (task_channel st t) = Some t"
      using assms by (simp_all add: consistent_def)
    have "consistent st'"
      unfolding consistent_def
    proof (intro conjI allI impI)
      fix c' r assume "debate_sessions st' c' = Some r"
      then show "r < length (heap st')" "channel_id (heap st' ! r) = c'"
        using a by (auto simp: st'_def)
    next
      fix t assume "t < length (tasks st')"
      then show "session_ref (tasks st' ! t) < length (heap st')"
        using b g by (auto simp: st'_def nth_append less_Suc_eq)
    next
      fix t assume al: "alive st' t"
      show "debate_tasks st' (task_channel st' t) = Some t"
      proof (cases "t < length (tasks st)")
        case True
        then have 1: "alive st t" "debate_tasks st c \<noteq> Some t"
          using al by (auto simp: st'_def alive_def nth_append cancel_requested_cancel_task_of)
        then have 2: "debate_tasks st (task_channel st t) = Some t"
          using d by blast
        then have 3: "task_channel st t \<noteq> c" using 1 by auto
        have "task_channel st' t = task_channel st t"
          using True by (simp add: st'_def task_channel_def nth_append)
        then show ?thesis using 2 3 by (simp add: st'_def)
      next
        case False
        then have t: "t = length (tasks st)"
          using al by (simp add: st'_def alive_def)
        have "task_channel st' t = c"
          using g a by (simp add: t st'_def task_channel_def nth_append)
        then show ?thesis by (simp add: t st'_def)
      qed
    qed
    then show ?thesis by (simp add: e)
  qed
qed

lemma consistent_step: "consistent st \<Longrightarrow> consistent (step st e)"
  by (cases e) (simp_all add: consistent_mulai consistent_join consistent_start consistent_poin
      consistent_stop consistent_resume)

lemma consistent_foldl: "consistent st \<Longrightarrow> consistent (foldl step st es)"
  by (induction es arbitrary: st) (simp_all add: consistent_step)

lemma consistent_exec: "consistent (exec es)"
  unfolding exec_def by (rule consistent_foldl) (rule consistent_initial)

lemma silent_after:
  assumes "t < length (tasks st)" "\<not> alive st t"
  shows "sent_by (foldl step st es) t = sent_by st t \<and> \<not> alive (foldl step st es) t"
  using assms
proof (induction es arbitrary: st)
  case Nil
  then show ?case by simp
next
  case (Cons e es)
  have "t < length (tasks (step st e))"
    using Cons.prems(1) step_tasks [of st e] by simp
  moreover have "\<not> alive (step st e) t"
    using Cons.prems by (rule step_not_alive)
  ultimately have "sent_by (foldl step (step st e) es) t = sent_by (step st e) t
      \<and> \<not> alive (foldl step (step st e) es) t"
    by (rule Cons.IH)
  then show ?case
    using step_sent_by [OF Cons.prems(2), of e] by simp
qed

lemma exec_snoc: "exec (es @ e # es') = foldl step (step (exec es) e) es'"
  by (simp add: exec_def)

lemma sent_debat_start [simp]: "sent (debat_start st c) = sent st"
  by (auto simp: debat_start_def say_def Let_def split: option.splits)

lemma sent_debat_stop [simp]: "sent (debat_stop st c) = sent st"
  by (auto simp: debat_stop_def say_def split: option.splits)

lemma start_cancels:
  assumes "consistent st" "t < length (tasks st)" "task_channel st t = c"
    and "length (tasks st) < length (tasks (debat_start st c))"
  shows "\<not> alive (debat_start st c) t \<and> debate_tasks (debat_start st c) c = Some (length (tasks st))"
proof (cases "get_session st c")
  case None
  then show ?thesis using assms(4) by (simp add: debat_start_def say_def)
next
  case (Some p)
  obtain ref s where p: "p = (ref, s)" by (cases p)
  have ok: "\<not> (running s \<or> pro s = [] \<or> kontra s = [])"
    using assms(4) Some p by (auto simp: debat_start_def say_def split: if_splits)
  have d: "alive st t \<longrightarrow> debate_tasks st c = Some t"
    using assms(1,3) by (auto simp: consistent_def)
  show ?thesis
    using Some p ok assms(2) d
    by (auto simp: debat_start_def say_def Let_def alive_def nth_append
        cancel_requested_cancel_task_of)
qed

lemma stop_cancels:
  assumes "consistent st" "t < length (tasks st)" "task_channel st t = c"
    and "debate_sessions st c \<noteq> None"
  shows "\<not> alive (debat_stop st c) t"
proof -
  obtain ref where r: "debate_sessions st c = Some ref" using assms(4) by blast
  then have "ref < length (heap st)" using assms(1) by (auto simp: consistent_def)
  then have g: "get_session st c = Some (ref, heap st ! ref)"
    using r by (simp add: get_session_def)
  have d: "alive st t \<longrightarrow> debate_tasks st c = Some t"
    using assms(1,3) by (auto simp: consistent_def)
  show ?thesis
    using g assms(2) d
    by (auto simp: debat_stop_def say_def alive_def cancel_requested_cancel_task_of)
qed

text \<open>
  C8. In every state the scheduler reaches, two alive tasks of the same channel are the same
  task. When \<^verbatim>\<open>debat_start\<close> starts a run in a channel, the new task is the one registered
  for the channel, and every task that existed for that channel is not alive from then on
  and does nothing more, whatever happens next. The same holds of the tasks of a channel
  after \<^verbatim>\<open>debat_stop\<close> in a channel that has a session.
\<close>

theorem one_runner_per_channel:
  "(alive (exec es) t \<and> alive (exec es) u \<and> task_channel (exec es) t = task_channel (exec es) u
      \<longrightarrow> t = u)
   \<and> (length (tasks (exec es)) < length (tasks (exec (es @ [Start c])))
        \<and> t < length (tasks (exec es)) \<and> task_channel (exec es) t = c
      \<longrightarrow> debate_tasks (exec (es @ [Start c])) c = Some (length (tasks (exec es)))
          \<and> \<not> alive (exec (es @ Start c # es')) t
          \<and> sent_by (exec (es @ Start c # es')) t = sent_by (exec es) t)
   \<and> (debate_sessions (exec es) c \<noteq> None
        \<and> t < length (tasks (exec es)) \<and> task_channel (exec es) t = c
      \<longrightarrow> \<not> alive (exec (es @ Stop c # es')) t
          \<and> sent_by (exec (es @ Stop c # es')) t = sent_by (exec es) t)"
proof (intro conjI impI)
  assume a: "alive (exec es) t \<and> alive (exec es) u
      \<and> task_channel (exec es) t = task_channel (exec es) u"
  have inv: "\<forall>t. alive (exec es) t \<longrightarrow> debate_tasks (exec es) (task_channel (exec es) t) = Some t"
    using consistent_exec [of es] by (simp add: consistent_def)
  have 1: "debate_tasks (exec es) (task_channel (exec es) t) = Some t"
    using a inv by blast
  have 2: "debate_tasks (exec es) (task_channel (exec es) u) = Some u"
    using a inv by blast
  have 3: "task_channel (exec es) t = task_channel (exec es) u"
    using a by blast
  have "Some t = Some u"
    using 1 2 unfolding 3 by (rule trans [OF sym])
  then show "t = u" by (rule option.inject [THEN iffD1])
next
  assume a: "length (tasks (exec es)) < length (tasks (exec (es @ [Start c])))
        \<and> t < length (tasks (exec es)) \<and> task_channel (exec es) t = c"
  define st1 where "st1 = debat_start (exec es) c"
  have g: "length (tasks (exec es)) < length (tasks st1)"
    using a by (simp add: st1_def exec_snoc)
  have k: "\<not> alive st1 t" "debate_tasks st1 c = Some (length (tasks (exec es)))"
    using start_cancels [OF consistent_exec, of t es c] a g by (simp_all add: st1_def)
  have t: "t < length (tasks st1)" using a g by simp
  have s: "sent_by (foldl step st1 es') t = sent_by st1 t" "\<not> alive (foldl step st1 es') t"
    using silent_after [OF t k(1), of es'] by simp_all
  have "sent_by st1 t = sent_by (exec es) t"
    by (simp add: st1_def sent_by_def)
  then show "debate_tasks (exec (es @ [Start c])) c = Some (length (tasks (exec es)))"
    "\<not> alive (exec (es @ Start c # es')) t"
    "sent_by (exec (es @ Start c # es')) t = sent_by (exec es) t"
    using s k by (simp_all add: exec_snoc st1_def)
next
  assume a: "debate_sessions (exec es) c \<noteq> None
        \<and> t < length (tasks (exec es)) \<and> task_channel (exec es) t = c"
  define st1 where "st1 = debat_stop (exec es) c"
  have k: "\<not> alive st1 t"
    using stop_cancels [OF consistent_exec, of t es c] a by (simp add: st1_def)
  have "length (tasks (exec es)) \<le> length (tasks st1)"
    using step_tasks [of "exec es" "Stop c"] by (simp add: st1_def)
  then have t: "t < length (tasks st1)" using a by simp
  have s: "sent_by (foldl step st1 es') t = sent_by st1 t" "\<not> alive (foldl step st1 es') t"
    using silent_after [OF t k, of es'] by simp_all
  have "sent_by st1 t = sent_by (exec es) t"
    by (simp add: st1_def sent_by_def)
  then show "\<not> alive (exec (es @ Stop c # es')) t"
    "sent_by (exec (es @ Stop c # es')) t = sent_by (exec es) t"
    using s by (simp_all add: exec_snoc st1_def)
qed

lemma replaced_run_state: "alive (exec replaced_run) 0" "task_channel (exec replaced_run) 0 = 5"
  "length (tasks (exec replaced_run)) < length (tasks (exec (replaced_run @ [Start 5])))"
  "0 < length (tasks (exec replaced_run))"
  "debate_sessions (exec replaced_run) 5 \<noteq> None"
  by code_simp+

lemma replaced_run_sent: "sent_by (exec replaced_run) 0 = [Announce ''topik'' 10, TurnNotice 1 2 PRO 1 10, Sleep 10]"
  by code_simp

theorem one_runner_per_channel_witness:
  "alive (exec replaced_run) 0 \<and> task_channel (exec replaced_run) 0 = 5
   \<and> length (tasks (exec replaced_run)) < length (tasks (exec (replaced_run @ [Start 5])))
   \<and> debate_sessions (exec replaced_run) 5 \<noteq> None
   \<and> \<not> alive (exec (replaced_run @ Start 5 # resumes_after)) 0
   \<and> sent_by (exec (replaced_run @ Start 5 # resumes_after)) 0
       = [Announce ''topik'' 10, TurnNotice 1 2 PRO 1 10, Sleep 10]
   \<and> \<not> alive (exec (replaced_run @ Stop 5 # resumes_after)) 0
   \<and> sent_by (exec (replaced_run @ Stop 5 # resumes_after)) 0
       = [Announce ''topik'' 10, TurnNotice 1 2 PRO 1 10, Sleep 10]"
  using one_runner_per_channel [of replaced_run 0 0 5 resumes_after] replaced_run_state
  by (simp add: replaced_run_sent)

end
